theory Spec2Isabelle
  imports Main "HOL-Library.Sublist"
begin

section \<open>Text primitives of the host language\<close>

text \<open>
  The codemod \<open>migrate-scaffold-ui-imports\<close> works on JavaScript strings. A text is
  modelled as a list of characters (code units below 256). The string methods the source
  calls are written out here with the behaviour they have in the language: \<open>indexOf\<close>
  answers \<open>-1\<close> when there is no occurrence, \<open>slice\<close> counts negative positions from
  the end, \<open>replace\<close> with a string pattern touches the first occurrence only and expands
  the dollar patterns of its replacement text, \<open>split\<close> cuts at the leftmost
  non-overlapping occurrences.
\<close>

definition dq :: char where
  "dq = CHR 0x22"

definition sq :: char where
  "sq = CHR 0x27"

definition is_space :: "char \<Rightarrow> bool" where
  \<comment> \<open>the class \<open>\s\<close>, which is also what \<open>trim\<close> removes\<close>
  "is_space c \<longleftrightarrow>
     c = CHR '' '' \<or> c = CHR 0x09 \<or> c = CHR 0x0A \<or> c = CHR 0x0B \<or> c = CHR 0x0C
     \<or> c = CHR 0x0D \<or> c = CHR 0xA0"

definition is_quote :: "char \<Rightarrow> bool" where
  \<comment> \<open>the class \<open>["']\<close>\<close>
  "is_quote c \<longleftrightarrow> c = dq \<or> c = sq"

definition is_comma :: "char \<Rightarrow> bool" where
  "is_comma c \<longleftrightarrow> c = CHR '',''"

definition is_word :: "char \<Rightarrow> bool" where
  \<comment> \<open>the class \<open>[\w$]\<close>\<close>
  "is_word c \<longleftrightarrow>
     (let n = (of_char c :: nat)
      in (65 \<le> n \<and> n \<le> 90) \<or> (97 \<le> n \<and> n \<le> 122) \<or> (48 \<le> n \<and> n \<le> 57)
         \<or> c = CHR ''_'' \<or> c = CHR ''$'')"

definition is_ident_start :: "char \<Rightarrow> bool" where
  \<comment> \<open>the class \<open>[A-Za-z_$]\<close>\<close>
  "is_ident_start c \<longleftrightarrow>
     (let n = (of_char c :: nat)
      in (65 \<le> n \<and> n \<le> 90) \<or> (97 \<le> n \<and> n \<le> 122) \<or> c = CHR ''_'' \<or> c = CHR ''$'')"

definition trim :: "string \<Rightarrow> string" where
  "trim s = rev (dropWhile is_space (rev (dropWhile is_space s)))"

fun find_index :: "string \<Rightarrow> string \<Rightarrow> nat option" where
  \<comment> \<open>position of the first occurrence of \<open>pat\<close> in the text\<close>
  "find_index [] pat = (if pat = [] then Some 0 else None)"
| "find_index (c # cs) pat =
     (if prefix pat (c # cs) then Some 0 else map_option Suc (find_index cs pat))"

definition indexOf :: "string \<Rightarrow> string \<Rightarrow> int" where
  "indexOf s pat = (case find_index s pat of None \<Rightarrow> - 1 | Some i \<Rightarrow> int i)"

definition includes_str :: "string \<Rightarrow> string \<Rightarrow> bool" where
  "includes_str s pat \<longleftrightarrow> find_index s pat \<noteq> None"

definition startsWith :: "string \<Rightarrow> string \<Rightarrow> bool" where
  "startsWith s pat \<longleftrightarrow> prefix pat s"

definition clamp_index :: "nat \<Rightarrow> int \<Rightarrow> nat" where
  \<comment> \<open>a relative position of \<open>slice\<close>: negative counts from the end, then clamped\<close>
  "clamp_index len i = (if i < 0 then nat (max (int len + i) 0) else min (nat i) len)"

definition slice :: "string \<Rightarrow> int \<Rightarrow> int \<Rightarrow> string" where
  \<comment> \<open>\<open>s.slice(a, b)\<close>\<close>
  "slice s a b =
     (let lo = clamp_index (length s) a; hi = clamp_index (length s) b
      in take (hi - lo) (drop lo s))"

definition slice_from :: "string \<Rightarrow> int \<Rightarrow> string" where
  \<comment> \<open>\<open>s.slice(a)\<close>\<close>
  "slice_from s a = drop (clamp_index (length s) a) s"

fun expand_replacement :: "string \<Rightarrow> string \<Rightarrow> string \<Rightarrow> string \<Rightarrow> string" where
  \<comment> \<open>the substitution of a replacement text: \<open>$$\<close> is a dollar sign, \<open>$&\<close> the matched
      text, \<open>$`\<close> the text before the match, \<open>$'\<close> the text after it; with a string
      pattern there is no capture group, so any other dollar sign stands for itself\<close>
  "expand_replacement (c # d # rest) matched preceding following =
     (if c = CHR ''$'' \<and> d = CHR ''$'' then CHR ''$'' # expand_replacement rest matched preceding following
      else if c = CHR ''$'' \<and> d = CHR ''&'' then matched @ expand_replacement rest matched preceding following
      else if c = CHR ''$'' \<and> d = CHR 0x60 then preceding @ expand_replacement rest matched preceding following
      else if c = CHR ''$'' \<and> d = sq then following @ expand_replacement rest matched preceding following
      else c # expand_replacement (d # rest) matched preceding following)"
| "expand_replacement r matched preceding following = r"

definition replace_first :: "string \<Rightarrow> string \<Rightarrow> string \<Rightarrow> string" where
  \<comment> \<open>\<open>s.replace(pat, repl)\<close> with a string pattern\<close>
  "replace_first s pat repl =
     (case find_index s pat of
        None \<Rightarrow> s
      | Some i \<Rightarrow>
          (let preceding = take i s; following = drop (i + length pat) s
           in preceding @ expand_replacement repl pat preceding following @ following))"

lemma find_index_bound:
  "find_index s pat = Some i \<Longrightarrow> i + length pat \<le> length s"
proof (induction s arbitrary: i)
  case Nil
  then show ?case by (simp split: if_splits)
next
  case (Cons c cs)
  show ?case
  proof (cases "prefix pat (c # cs)")
    case True
    then have "length pat \<le> length (c # cs)" by (rule prefix_length_le)
    with True Cons.prems show ?thesis by simp
  next
    case False
    with Cons.prems obtain j where "find_index cs pat = Some j" "i = Suc j"
      by auto
    with Cons.IH show ?thesis by simp
  qed
qed

function split_str :: "string \<Rightarrow> string \<Rightarrow> string list" where
  \<comment> \<open>\<open>s.split(sep)\<close>; an empty separator cuts between all characters\<close>
  "split_str s sep =
     (if sep = [] then map (\<lambda>c. [c]) s
      else (case find_index s sep of
              None \<Rightarrow> [s]
            | Some i \<Rightarrow> take i s # split_str (drop (i + length sep) s) sep))"
  by pat_completeness auto

termination
proof (relation "measure (\<lambda>(s, sep). length s)")
  show "wf (measure (\<lambda>(s, sep). length s))" by simp
next
  fix s sep :: string and i :: nat
  assume "sep \<noteq> []" and "find_index s sep = Some i"
  then have "i + length sep \<le> length s" and "0 < length sep"
    by (simp_all add: find_index_bound)
  then have "length s - (i + length sep) < length s"
    by arith
  then show "((drop (i + length sep) s, sep), (s, sep)) \<in> measure (\<lambda>(s, sep). length s)"
    by simp
qed

fun join_str :: "string list \<Rightarrow> string \<Rightarrow> string" where
  \<comment> \<open>\<open>parts.join(sep)\<close>\<close>
  "join_str [] sep = []"
| "join_str [p] sep = p"
| "join_str (p # q # ps) sep = p @ sep @ join_str (q # ps) sep"

section \<open>Data of the codemod\<close>

text \<open>
  The types of the source, field by field. A field the source leaves optional is an
  option here; \<open>keepAlias\<close> is read in a condition only, so its absence is \<open>False\<close>. Two
  fields change their names, which are taken otherwise: \<open>alias\<close> of a specifier is
  \<open>alias_name\<close> and \<open>specifiers\<close> of an analysis is \<open>analysis_specifiers\<close>.
\<close>

record SpecifierRenameRule =
  newName :: string
  keepAlias :: bool

record ImportSpec =
  isType :: bool
  imported :: string
  alias_name :: "string option"

record NamedImportEntry =
  raw :: string
  spec :: "ImportSpec option"
  leadingWhitespace :: "string option"
  trailingWhitespace :: "string option"
  comma :: "string option"

record NamedImportParseResult =
  entries :: "NamedImportEntry list"
  specifiers :: "string list"

type_synonym rename_table = "(string \<times> SpecifierRenameRule) list"

record ImportTransform =
  newPath :: string
  renameSpecifiers :: "rename_table option"
  description :: string

record ImportAnalysis =
  original :: string
  updated :: string
  analysis_specifiers :: "string list"
  defaultImport :: "string option"
  appliedTransform :: "ImportTransform option"

text \<open>
  A line of the change summary. The source builds the texts \<open>import \<rightarrow> d\<close>,
  \<open>export \<rightarrow> d\<close> and \<open>text \<rightarrow> legacy \<rightarrow> modern\<close>; the constructors keep the
  kind of the line and the texts put into it.
\<close>

datatype summary_line =
  Import_line string
| Export_line string
| Text_line string string

record TransformResult =
  updatedContent :: string
  summary :: "summary_line list"

definition COMPONENT_TARGET :: string where
  "COMPONENT_TARGET = ''@scaffold-ui/components''"

definition LEGACY_COMPONENT_SPECIFIERS :: "string set" where
  "LEGACY_COMPONENT_SPECIFIERS =
     {''Address'', ''AddressInput'', ''Balance'', ''EtherInput'', ''InputBase'', ''BaseInput''}"

definition COMPONENT_SPECIFIER_RENAMES :: rename_table where
  "COMPONENT_SPECIFIER_RENAMES = [(''InputBase'', \<lparr>newName = ''BaseInput'', keepAlias = True\<rparr>)]"

definition RAW_PATH_REPLACEMENTS :: "(string \<times> string) list" where
  "RAW_PATH_REPLACEMENTS =
     [(''~~/components/scaffold-eth/Input/AddressInput'', COMPONENT_TARGET),
      (''~~/components/scaffold-eth/Input/EtherInput'', COMPONENT_TARGET),
      (''~~/components/scaffold-eth/Input'', COMPONENT_TARGET),
      (''~~/components/scaffold-eth/Address/Address'', COMPONENT_TARGET),
      (''~~/components/scaffold-eth/Address'', COMPONENT_TARGET)]"

text \<open>
  The rename table is an object literal, and \<open>renameMap[name]\<close> is a property read: a
  name that is no key of the table but a member every object inherits is found too. Such
  a member is an object without \<open>newName\<close> and \<open>keepAlias\<close>.
\<close>

definition object_prototype_members :: "string list" where
  "object_prototype_members =
     [''constructor'', ''__proto__'', ''hasOwnProperty'', ''isPrototypeOf'',
      ''propertyIsEnumerable'', ''toLocaleString'', ''toString'', ''valueOf'',
      ''__defineGetter__'', ''__defineSetter__'', ''__lookupGetter__'', ''__lookupSetter__'']"

datatype rule_lookup =
  Own_rule SpecifierRenameRule
| Inherited_member
| No_rule

definition property_read :: "rename_table \<Rightarrow> string \<Rightarrow> rule_lookup" where
  "property_read renameMap name =
     (case map_of renameMap name of
        Some rule \<Rightarrow> Own_rule rule
      | None \<Rightarrow> if name \<in> set object_prototype_members then Inherited_member else No_rule)"

section \<open>The statement locator\<close>

text \<open>
  \<open>IMPORT_REGEX\<close> is \<open>import\s+[\s\S]*?from\s+["']([^"']+)["'];?\<close> and
  \<open>EXPORT_FROM_REGEX\<close> is the same with \<open>export\<close>. Each greedy class of the tail
  \<open>from\s+["']([^"']+)["'];?\<close> is followed by a character outside the class, so giving
  characters back never helps and the tail matches at a position in one way at most. The
  lazy \<open>[\s\S]*?\<close> tries the positions from left to right. The whitespace behind the
  keyword is taken whole: a position given back holds whitespace, where the tail, which
  starts with \<open>f\<close>, does not match. The functions return the length of the match and
  the captured path.
\<close>

definition match_from_clause :: "string \<Rightarrow> (nat \<times> string) option" where
  \<comment> \<open>the tail at the head of the text: length of the match and the captured path\<close>
  "match_from_clause s =
     (if prefix ''from'' s then
        (let r1 = drop 4 s; ws = takeWhile is_space r1
         in if ws = [] then None
            else (case dropWhile is_space r1 of
                    [] \<Rightarrow> None
                  | q # r3 \<Rightarrow>
                      if \<not> is_quote q then None
                      else (let p = takeWhile (\<lambda>c. \<not> is_quote c) r3
                            in if p = [] then None
                               else (case dropWhile (\<lambda>c. \<not> is_quote c) r3 of
                                       [] \<Rightarrow> None
                                     | q2 # r5 \<Rightarrow>
                                         Some (4 + length ws + 1 + length p + 1
                                                 + (if prefix '';'' r5 then 1 else 0), p)))))
      else None)"

fun lazy_any_then_from :: "string \<Rightarrow> (nat \<times> string) option" where
  "lazy_any_then_from [] = match_from_clause []"
| "lazy_any_then_from (c # cs) =
     (case match_from_clause (c # cs) of
        Some m \<Rightarrow> Some m
      | None \<Rightarrow> map_option (\<lambda>(n, p). (Suc n, p)) (lazy_any_then_from cs))"

definition match_statement_at :: "string \<Rightarrow> string \<Rightarrow> (nat \<times> string) option" where
  \<comment> \<open>the whole expression at the head of the text, for the keyword \<open>kw\<close>\<close>
  "match_statement_at kw s =
     (if prefix kw s then
        (let r = drop (length kw) s; ws = takeWhile is_space r
         in if ws = [] then None
            else map_option (\<lambda>(n, p). (length kw + length ws + n, p))
                   (lazy_any_then_from (dropWhile is_space r)))
      else None)"

lemma match_from_clause_shape:
  assumes "match_from_clause s = Some (n, p)"
  shows "\<exists>pre post. s = pre @ p @ post \<and> post \<noteq> [] \<and> p \<noteq> []
           \<and> n = length pre + length p + (if prefix '';'' (tl post) then 2 else 1)"
proof -
  from assms have pf: "prefix ''from'' s"
    by (simp add: match_from_clause_def split: if_splits)
  define r1 where "r1 = drop 4 s"
  define ws where "ws = takeWhile is_space r1"
  from pf have s1: "s = ''from'' @ r1"
    unfolding r1_def by (auto simp: prefix_def)
  from assms pf have wsne: "ws \<noteq> []"
    by (auto simp: match_from_clause_def Let_def r1_def ws_def split: if_splits)
  from assms pf wsne obtain q r3 where d1: "dropWhile is_space r1 = q # r3"
    by (auto simp: match_from_clause_def Let_def r1_def ws_def split: if_splits list.splits)
  define p' where "p' = takeWhile (\<lambda>c. \<not> is_quote c) r3"
  from assms pf wsne d1 obtain q2 r5 where d2: "dropWhile (\<lambda>c. \<not> is_quote c) r3 = q2 # r5"
    and pp: "p = p'" and pne: "p' \<noteq> []"
    and n: "n = 4 + length ws + 1 + length p' + 1 + (if prefix '';'' r5 then 1 else 0)"
    by (auto simp: match_from_clause_def Let_def r1_def ws_def p'_def
        split: if_splits list.splits)
  have r1: "r1 = ws @ q # r3"
    using d1 takeWhile_dropWhile_id[of is_space r1] by (simp add: ws_def)
  have r3: "r3 = p' @ q2 # r5"
    using d2 takeWhile_dropWhile_id[of "\<lambda>c. \<not> is_quote c" r3] by (simp add: p'_def)
  have "s = (''from'' @ ws @ [q]) @ p @ (q2 # r5)"
    using s1 r1 r3 pp by simp
  moreover have "n = length (''from'' @ ws @ [q]) + length p
      + (if prefix '';'' (tl (q2 # r5)) then 2 else 1)"
    using n pp by simp
  ultimately show ?thesis using pne pp by blast
qed

lemma match_from_clause_bound:
  assumes "match_from_clause s = Some (n, p)"
  shows "0 < n \<and> n \<le> length s \<and> sublist p (take n s)"
proof -
  from match_from_clause_shape[OF assms] obtain pre post where
    s: "s = pre @ p @ post" and post: "post \<noteq> []"
    and n: "n = length pre + length p + (if prefix '';'' (tl post) then 2 else 1)"
    by blast
  from post obtain q r where pq: "post = q # r" by (cases post) auto
  define k where "k = (if prefix '';'' r then 2 else (1::nat))"
  have "prefix '';'' r \<Longrightarrow> 1 \<le> length r"
    using prefix_length_le[of "'';''" r] by simp
  then have le: "k \<le> length post" and k0: "0 < k"
    unfolding k_def pq by auto
  have nk: "n = length pre + length p + k"
    using n pq by (simp add: k_def)
  have "take n s = pre @ p @ take k post"
    unfolding s nk by simp
  then have "sublist p (take n s)"
    unfolding sublist_def by blast
  moreover have "n \<le> length s" unfolding s nk using le by simp
  moreover have "0 < n" unfolding nk using k0 by simp
  ultimately show ?thesis by simp
qed

lemma lazy_any_then_from_bound:
  "lazy_any_then_from s = Some (n, p) \<Longrightarrow> 0 < n \<and> n \<le> length s \<and> sublist p (take n s)"
proof (induction s arbitrary: n)
  case Nil
  then have "match_from_clause [] = Some (n, p)" by simp
  then show ?case by (rule match_from_clause_bound)
next
  case (Cons c cs)
  show ?case
  proof (cases "match_from_clause (c # cs)")
    case (Some m)
    with Cons.prems have "match_from_clause (c # cs) = Some (n, p)" by simp
    then show ?thesis by (rule match_from_clause_bound)
  next
    case None
    with Cons.prems have "map_option (\<lambda>(n, p). (Suc n, p)) (lazy_any_then_from cs) = Some (n, p)"
      by simp
    then obtain k where k: "lazy_any_then_from cs = Some (k, p)" and n: "n = Suc k"
      by (cases "lazy_any_then_from cs") auto
    from Cons.IH[OF k] have k0: "0 < k" and kl: "k \<le> length cs"
      and sub: "sublist p (take k cs)" by simp_all
    have "take n (c # cs) = c # take k cs" unfolding n by simp
    with sub have "sublist p (take n (c # cs))"
      by (simp add: sublist_Cons_right)
    with kl show ?thesis unfolding n by simp
  qed
qed

lemma match_statement_at_bound:
  assumes "match_statement_at kw s = Some (n, p)"
  shows "0 < n \<and> n \<le> length s \<and> sublist p (take n s)"
proof -
  from assms have pf: "prefix kw s"
    by (simp add: match_statement_at_def split: if_splits)
  define r where "r = drop (length kw) s"
  define ws where "ws = takeWhile is_space r"
  define t where "t = dropWhile is_space r"
  from pf have s1: "s = kw @ r"
    unfolding r_def by (auto simp: prefix_def)
  from assms pf have "map_option (\<lambda>(n, p). (length kw + length ws + n, p)) (lazy_any_then_from t)
      = Some (n, p)"
    by (simp add: match_statement_at_def Let_def r_def ws_def t_def split: if_splits)
  then obtain k where k: "lazy_any_then_from t = Some (k, p)"
    and n: "n = length kw + length ws + k"
    by (cases "lazy_any_then_from t") auto
  have r: "r = ws @ t"
    by (simp add: ws_def t_def)
  from lazy_any_then_from_bound[OF k]
  have k0: "0 < k" and kl: "k \<le> length t" and sub: "sublist p (take k t)" by simp_all
  have tk: "take n s = (kw @ ws) @ take k t"
    unfolding s1 r n by simp
  from sub obtain a b where "take k t = a @ p @ b"
    unfolding sublist_def by blast
  with tk have "take n s = (kw @ ws @ a) @ p @ b" by simp
  then have "sublist p (take n s)"
    unfolding sublist_def by blast
  moreover have "n \<le> length s" unfolding s1 r n using kl by simp
  ultimately show ?thesis using n k0 by simp
qed

function matchAll :: "string \<Rightarrow> string \<Rightarrow> (string \<times> string) list" where
  \<comment> \<open>\<open>Array.from(s.matchAll(re))\<close>: the matched text and the captured path of each
      match, from left to right, the search going on behind the previous match\<close>
  "matchAll kw s =
     (case match_statement_at kw s of
        Some (n, p) \<Rightarrow> (take n s, p) # matchAll kw (drop n s)
      | None \<Rightarrow> (case s of [] \<Rightarrow> [] | c # cs \<Rightarrow> matchAll kw cs))"
  by pat_completeness auto

termination
proof (relation "measure (\<lambda>(kw, s). length s)")
  show "wf (measure (\<lambda>(kw, s). length s))" by simp
next
  fix kw s :: string and x :: "nat \<times> string" and n :: nat and p :: string
  assume "match_statement_at kw s = Some x" and "(n, p) = x"
  then have "match_statement_at kw s = Some (n, p)" by simp
  then have "0 < n \<and> n \<le> length s \<and> sublist p (take n s)"
    by (rule match_statement_at_bound)
  then have "length s - n < length s" by arith
  then show "((kw, drop n s), (kw, s)) \<in> measure (\<lambda>(kw, s). length s)" by simp
next
  fix kw s :: string and c :: char and cs :: string
  assume "s = c # cs"
  then show "((kw, cs), (kw, s)) \<in> measure (\<lambda>(kw, s). length s)" by simp
qed

definition match_named_section :: "string \<Rightarrow> (string \<times> string) option" where
  \<comment> \<open>\<open>s.match(/\{([\s\S]*?)\}/)\<close>: the first opening brace and the text up to the first
      closing brace behind it; the matched text and the captured content\<close>
  "match_named_section s =
     (case dropWhile (\<lambda>c. c \<noteq> CHR ''{'') s of
        [] \<Rightarrow> None
      | b # r \<Rightarrow>
          (case dropWhile (\<lambda>c. c \<noteq> CHR ''}'') r of
             [] \<Rightarrow> None
           | e # r' \<Rightarrow>
               (let content = takeWhile (\<lambda>c. c \<noteq> CHR ''}'') r
                in Some (b # content @ [e], content))))"

function named_tokens :: "string \<Rightarrow> (string \<times> string) list" where
  \<comment> \<open>the loop \<open>matcher.exec(content)\<close> with \<open>/([^,]+)(,?)/g\<close>: groups 1 and 2 of each
      match; a comma with no text before it is matched by nothing and skipped\<close>
  "named_tokens s =
     (case dropWhile is_comma s of
        [] \<Rightarrow> []
      | c # cs \<Rightarrow>
          (let specText = takeWhile (\<lambda>x. \<not> is_comma x) (c # cs)
           in (case dropWhile (\<lambda>x. \<not> is_comma x) (c # cs) of
                 [] \<Rightarrow> [(specText, [])]
               | k # rest \<Rightarrow> (specText, [k]) # named_tokens rest)))"
  by pat_completeness auto

termination
proof (relation "measure length")
  show "wf (measure length)" by simp
next
  fix s :: string and c k :: char and cs rest :: string
  assume a: "dropWhile is_comma s = c # cs"
    and b: "dropWhile (\<lambda>x. \<not> is_comma x) (c # cs) = k # rest"
  have "length (k # rest) \<le> length (c # cs)"
    unfolding b[symmetric] by (rule length_dropWhile_le)
  moreover have "length (c # cs) \<le> length s"
    unfolding a[symmetric] by (rule length_dropWhile_le)
  ultimately show "(rest, s) \<in> measure length" by simp
qed

definition match_as_at :: "string \<Rightarrow> nat option" where
  \<comment> \<open>\<open>\s+as\s+\<close> at the head of the text: the length of the match\<close>
  "match_as_at s =
     (let ws1 = takeWhile is_space s; r = dropWhile is_space s
      in if ws1 = [] then None
         else if prefix ''as'' r then
           (let ws2 = takeWhile is_space (drop 2 r)
            in if ws2 = [] then None else Some (length ws1 + 2 + length ws2))
         else None)"

fun match_as :: "string \<Rightarrow> (nat \<times> nat) option" where
  \<comment> \<open>\<open>rest.match(/\s+as\s+/)\<close>: index and length of the leftmost match\<close>
  "match_as [] = None"
| "match_as (c # cs) =
     (case match_as_at (c # cs) of
        Some n \<Rightarrow> Some (0, n)
      | None \<Rightarrow> map_option (\<lambda>(i, n). (Suc i, n)) (match_as cs))"

definition parse_spec :: "string \<Rightarrow> ImportSpec" where
  \<comment> \<open>the loop of \<open>parseNamedImports\<close>, from the type marker to the alias: the
      specifier read off the trimmed text of a match\<close>
  "parse_spec trimmed =
     (let isType = startsWith trimmed ''type '';
          rest = (if isType then trim (slice_from trimmed 5) else trimmed);
          asMatch = match_as rest;
          imported =
            (case asMatch of
               None \<Rightarrow> rest
             | Some (index, len) \<Rightarrow> trim (slice rest 0 (int index)));
          alias =
            (case asMatch of
               None \<Rightarrow> None
             | Some (index, len) \<Rightarrow> Some (trim (slice_from rest (int index + int len))))
      in \<lparr>isType = isType, imported = imported, alias_name = alias\<rparr>)"

definition parse_token :: "string \<times> string \<Rightarrow> NamedImportEntry" where
  \<comment> \<open>the body of the loop of \<open>parseNamedImports\<close> for one match\<close>
  "parse_token m =
     (let specText = fst m; comma = snd m; full = specText @ comma; trimmed = trim specText
      in if trimmed = [] then
           \<lparr>raw = full, spec = None, leadingWhitespace = None, trailingWhitespace = None,
            comma = None\<rparr>
         else
           (let leadingWhitespace = slice specText 0 (indexOf specText trimmed);
                trailingWhitespace =
                  slice_from specText (indexOf specText trimmed + int (length trimmed))
            in \<lparr>raw = full,
                spec = Some (parse_spec trimmed),
                leadingWhitespace = Some leadingWhitespace,
                trailingWhitespace = Some trailingWhitespace,
                comma = Some comma\<rparr>))"

definition parseNamedImports :: "string \<Rightarrow> NamedImportParseResult" where
  "parseNamedImports content =
     (let es = map parse_token (named_tokens content)
      in \<lparr>entries = es,
          specifiers = concat (map (\<lambda>e. case spec e of None \<Rightarrow> [] | Some sp \<Rightarrow> [imported sp]) es)\<rparr>)"

section \<open>Rebuilding the named-import clause\<close>

definition build_entry :: "rename_table \<Rightarrow> NamedImportEntry \<Rightarrow> string" where
  \<comment> \<open>the function mapped over the entries by \<open>buildNamedImport\<close>; an inherited member
      has no \<open>newName\<close>, and the missing value is printed as \<open>undefined\<close>\<close>
  "build_entry renameMap entry =
     (case spec entry of
        None \<Rightarrow> raw entry
      | Some sp \<Rightarrow>
          (let rule = property_read renameMap (imported sp);
               imported_text =
                 (case rule of
                    Own_rule r \<Rightarrow> newName r
                  | Inherited_member \<Rightarrow> ''undefined''
                  | No_rule \<Rightarrow> imported sp);
               alias =
                 (case rule of
                    Own_rule r \<Rightarrow>
                      (case alias_name sp of
                         Some a \<Rightarrow> Some a
                       | None \<Rightarrow> if keepAlias r then Some (imported sp) else None)
                  | Inherited_member \<Rightarrow> alias_name sp
                  | No_rule \<Rightarrow> alias_name sp);
               specText = (if isType sp then ''type '' @ imported_text else imported_text);
               specText' =
                 (case alias of
                    None \<Rightarrow> specText
                  | Some a \<Rightarrow> if a \<noteq> [] then specText @ '' as '' @ a else specText)
           in (case leadingWhitespace entry of None \<Rightarrow> [] | Some w \<Rightarrow> w) @ specText'
              @ (case trailingWhitespace entry of None \<Rightarrow> [] | Some w \<Rightarrow> w)
              @ (case comma entry of None \<Rightarrow> [] | Some k \<Rightarrow> k)))"

definition buildNamedImport :: "NamedImportEntry list \<Rightarrow> rename_table \<Rightarrow> string" where
  "buildNamedImport es renameMap = concat (map (build_entry renameMap) es)"

section \<open>The default import\<close>

function collapse_whitespace :: "string \<Rightarrow> string" where
  \<comment> \<open>\<open>statement.replace(/\s+/g, " ")\<close>\<close>
  "collapse_whitespace [] = []"
| "collapse_whitespace (c # cs) =
     (if is_space c then CHR '' '' # collapse_whitespace (dropWhile is_space cs)
      else c # collapse_whitespace cs)"
  by pat_completeness auto

termination
proof (relation "measure length")
  show "wf (measure length)" by simp
next
  fix c :: char and cs :: string
  have "length (dropWhile is_space cs) \<le> length cs" by (rule length_dropWhile_le)
  then show "(dropWhile is_space cs, c # cs) \<in> measure length" by simp
next
  fix c :: char and cs :: string
  show "(cs, c # cs) \<in> measure length" by simp
qed

definition after_identifier :: "string \<Rightarrow> bool" where
  \<comment> \<open>\<open>\s*(?:,|from)\<close> at the head of the text\<close>
  "after_identifier t = (let r = dropWhile is_space t in prefix '','' r \<or> prefix ''from'' r)"

fun identifier_length :: "nat \<Rightarrow> string \<Rightarrow> nat option" where
  \<comment> \<open>the greedy \<open>[\w$]*\<close> gives characters back one at a time until the rest of the
      expression matches: the first of \<open>k, k - 1, ..., 0\<close> that works\<close>
  "identifier_length 0 t = (if after_identifier t then Some 0 else None)"
| "identifier_length (Suc k) t =
     (if after_identifier (drop (Suc k) t) then Some (Suc k) else identifier_length k t)"

definition default_import_at :: "string \<Rightarrow> string option" where
  \<comment> \<open>\<open>import\s+([A-Za-z_$][\w$]*)\s*(?:,|from)\<close> at the head of the text: group 1\<close>
  "default_import_at s =
     (if prefix ''import'' s then
        (let r = drop 6 s
         in if takeWhile is_space r = [] then None
            else (case dropWhile is_space r of
                    [] \<Rightarrow> None
                  | c # t \<Rightarrow>
                      if \<not> is_ident_start c then None
                      else map_option (\<lambda>k. c # take k t)
                             (identifier_length (length (takeWhile is_word t)) t)))
      else None)"

fun default_import_search :: "string \<Rightarrow> string option" where
  \<comment> \<open>the leftmost position at which the expression matches\<close>
  "default_import_search [] = None"
| "default_import_search (c # cs) =
     (case default_import_at (c # cs) of
        Some identifier \<Rightarrow> Some identifier
      | None \<Rightarrow> default_import_search cs)"

definition extractDefaultImport :: "string \<Rightarrow> string option" where
  "extractDefaultImport statement =
     (let sanitized = collapse_whitespace statement
      in (case default_import_search sanitized of
            None \<Rightarrow> None
          | Some identifier \<Rightarrow> if identifier = ''type'' then None else Some identifier))"

section \<open>The transform resolver and the statement rewriter\<close>

definition migrated :: ImportTransform where
  \<comment> \<open>the object both branches of \<open>determineTransform\<close> return\<close>
  "migrated =
     \<lparr>newPath = COMPONENT_TARGET,
      renameSpecifiers = Some COMPONENT_SPECIFIER_RENAMES,
      description = ''components import migrated to '' @ COMPONENT_TARGET\<rparr>"

definition determineTransform :: "string \<Rightarrow> string list \<Rightarrow> ImportTransform option" where
  "determineTransform legacyPath specs =
     (if \<not> startsWith legacyPath ''~~/components/scaffold-eth'' then None
      else if legacyPath = ''~~/components/scaffold-eth'' then
        (let usesLegacyComponent = (\<exists>specifier \<in> set specs. specifier \<in> LEGACY_COMPONENT_SPECIFIERS)
         in if \<not> usesLegacyComponent then None else Some migrated)
      else if legacyPath = ''~~/components/scaffold-eth/Input''
          \<or> legacyPath = ''~~/components/scaffold-eth/Input/AddressInput''
          \<or> legacyPath = ''~~/components/scaffold-eth/Input/EtherInput''
          \<or> legacyPath = ''~~/components/scaffold-eth/Address/Address''
          \<or> legacyPath = ''~~/components/scaffold-eth/Address''
        then Some migrated
      else None)"

definition analyzeImportStatement :: "string \<Rightarrow> string \<Rightarrow> ImportAnalysis" where
  "analyzeImportStatement fullStatement legacyPath =
     (let namedSectionMatch = match_named_section fullStatement;
          namedResult = map_option (\<lambda>m. parseNamedImports (snd m)) namedSectionMatch;
          named = (case namedResult of None \<Rightarrow> [] | Some r \<Rightarrow> specifiers r);
          defaultImport = extractDefaultImport fullStatement;
          specs = (case defaultImport of None \<Rightarrow> named | Some d \<Rightarrow> named @ [d])
      in (case determineTransform legacyPath specs of
            None \<Rightarrow>
              \<lparr>original = fullStatement, updated = fullStatement, analysis_specifiers = specs,
               defaultImport = defaultImport, appliedTransform = None\<rparr>
          | Some transform \<Rightarrow>
              (let updatedStatement = replace_first fullStatement legacyPath (newPath transform);
                   updatedStatement' =
                     (case (namedSectionMatch, renameSpecifiers transform, namedResult) of
                        (Some m, Some renames, Some r) \<Rightarrow>
                          replace_first updatedStatement (fst m)
                            (''{'' @ buildNamedImport (entries r) renames @ ''}'')
                      | _ \<Rightarrow> updatedStatement)
               in \<lparr>original = fullStatement, updated = updatedStatement',
                   analysis_specifiers = specs, defaultImport = defaultImport,
                   appliedTransform = Some transform\<rparr>)))"

section \<open>The transform of a file\<close>

definition import_step :: "TransformResult \<Rightarrow> string \<times> string \<Rightarrow> TransformResult" where
  \<comment> \<open>the body of the loop over the import matches\<close>
  "import_step st m =
     (let fullStatement = fst m; legacyPath = snd m;
          analysis = analyzeImportStatement fullStatement legacyPath
      in (case appliedTransform analysis of
            None \<Rightarrow> st
          | Some t \<Rightarrow>
              if updated analysis \<noteq> fullStatement then
                \<lparr>updatedContent = replace_first (updatedContent st) fullStatement (updated analysis),
                 summary = summary st @ [Import_line (description t)]\<rparr>
              else st))"

definition export_step :: "TransformResult \<Rightarrow> string \<times> string \<Rightarrow> TransformResult" where
  \<comment> \<open>the body of the loop over the export-from matches\<close>
  "export_step st m =
     (let fullStatement = fst m; legacyPath = snd m
      in (case determineTransform legacyPath [] of
            None \<Rightarrow> st
          | Some transform \<Rightarrow>
              (let rewritten = replace_first fullStatement legacyPath (newPath transform)
               in if rewritten \<noteq> fullStatement then
                    \<lparr>updatedContent = replace_first (updatedContent st) fullStatement rewritten,
                     summary = summary st @ [Export_line (description transform)]\<rparr>
                  else st)))"

definition raw_step :: "TransformResult \<Rightarrow> string \<times> string \<Rightarrow> TransformResult" where
  \<comment> \<open>the body of the loop over \<open>RAW_PATH_REPLACEMENTS\<close>\<close>
  "raw_step st m =
     (let legacy = fst m; modern = snd m
      in if includes_str (updatedContent st) legacy then
           \<lparr>updatedContent = join_str (split_str (updatedContent st) legacy) modern,
            summary = summary st @ [Text_line legacy modern]\<rparr>
         else st)"

definition import_pass :: "TransformResult \<Rightarrow> TransformResult" where
  "import_pass st = foldl import_step st (matchAll ''import'' (updatedContent st))"

definition export_pass :: "TransformResult \<Rightarrow> TransformResult" where
  "export_pass st = foldl export_step st (matchAll ''export'' (updatedContent st))"

definition raw_pass :: "TransformResult \<Rightarrow> TransformResult" where
  "raw_pass st = foldl raw_step st RAW_PATH_REPLACEMENTS"

definition transformContent :: "string \<Rightarrow> TransformResult" where
  "transformContent content =
     raw_pass (export_pass (import_pass \<lparr>updatedContent = content, summary = []\<rparr>))"

section \<open>Auxiliary notions\<close>

text \<open>
  A module path between double quotes, for writing statements down, and the notions the
  proofs and the statements about the raw pass use: the condition under which replacing
  all occurrences of \<open>l\<close> by \<open>m\<close> leaves no occurrence of \<open>l\<close> and creates none; the
  whitespace at the end of a text; the plain replacement of all occurrences of a text,
  met from left to right, the search going on behind each one; the shape of the legacy
  strings and of the target of the replacement list; and a text given as a list of heads,
  each with the text that follows it.
\<close>

definition quoted :: "string \<Rightarrow> string" where
  "quoted p = dq # p @ [dq]"

definition replaceable :: "string \<Rightarrow> string \<Rightarrow> bool" where
  \<comment> \<open>no occurrence of \<open>l\<close> can begin or end inside an inserted \<open>m\<close>\<close>
  "replaceable l m \<longleftrightarrow> l \<noteq> [] \<and> m \<noteq> [] \<and> hd l \<notin> set m \<and> hd m \<notin> set l"


function replace_every :: "string \<Rightarrow> string \<Rightarrow> string \<Rightarrow> string" where
  \<comment> \<open>the plain substring replacement of the specification: every occurrence of
      \<open>l\<close>, met from the left, becomes \<open>m\<close>, and the text between them is kept\<close>
  "replace_every l m [] = []"
| "replace_every l m (c # cs) =
     (if l \<noteq> [] \<and> prefix l (c # cs) then m @ replace_every l m (drop (length l) (c # cs))
      else c # replace_every l m cs)"
  by pat_completeness auto

termination
proof (relation "measure (\<lambda>(l, m, s). length s)")
  show "wf (measure (\<lambda>(l, m, s). length s))" by simp
next
  fix l m :: string and c :: char and cs :: string
  assume "l \<noteq> [] \<and> prefix l (c # cs)"
  then have "0 < length l" by simp
  then have "length (c # cs) - length l < length (c # cs)" by simp
  then show "((l, m, drop (length l) (c # cs)), (l, m, c # cs)) \<in> measure (\<lambda>(l, m, s). length s)"
    by simp
next
  fix l m :: string and c :: char and cs :: string
  show "((l, m, cs), (l, m, c # cs)) \<in> measure (\<lambda>(l, m, s). length s)" by simp
qed

definition legacy_like :: "string \<Rightarrow> bool" where
  \<comment> \<open>two tildes, then a text that is not empty and holds neither a tilde nor an at sign\<close>
  "legacy_like l \<longleftrightarrow>
     (\<exists>r. l = ''~~'' @ r \<and> r \<noteq> [] \<and> CHR ''~'' \<notin> set r \<and> CHR ''@'' \<notin> set r)"

definition target_like :: "string \<Rightarrow> bool" where
  \<comment> \<open>an at sign, then a text without a tilde\<close>
  "target_like t \<longleftrightarrow> (\<exists>r. t = CHR ''@'' # r \<and> CHR ''~'' \<notin> set r)"

definition render :: "(string \<times> string) list \<Rightarrow> string" where
  \<comment> \<open>a text as a list of pairs: a head and the text behind it, up to the next head\<close>
  "render items = concat (map (\<lambda>x. fst x @ snd x) items)"

section \<open>Auxiliary facts\<close>

subsection \<open>The rule tables\<close>

lemma determineTransform_cases:
  "determineTransform p specs =
     (if p = ''~~/components/scaffold-eth'' then
        (if \<exists>s \<in> set specs. s \<in> LEGACY_COMPONENT_SPECIFIERS then Some migrated else None)
      else if p \<in> set (map fst RAW_PATH_REPLACEMENTS) then Some migrated else None)"
  by (auto simp: determineTransform_def startsWith_def RAW_PATH_REPLACEMENTS_def Let_def)

subsection \<open>The summary lines of the three loops\<close>

lemma determineTransform_migrated:
  "determineTransform p specs = Some t \<Longrightarrow> t = migrated"
  by (simp add: determineTransform_cases split: if_splits)

lemma appliedTransform_analyze:
  "appliedTransform (analyzeImportStatement f p) = Some t \<Longrightarrow> t = migrated"
  by (auto simp: analyzeImportStatement_def Let_def split: option.splits
      dest: determineTransform_migrated)

lemma import_step_summary:
  "summary (import_step st m) =
     summary st @
       (if appliedTransform (analyzeImportStatement (fst m) (snd m)) \<noteq> None
           \<and> updated (analyzeImportStatement (fst m) (snd m)) \<noteq> fst m
        then [Import_line (description migrated)] else [])"
  by (auto simp: import_step_def Let_def split: option.splits dest: appliedTransform_analyze)

lemma import_fold_summary:
  "summary (foldl import_step st ms) =
     summary st @
       replicate
         (length (filter (\<lambda>m. appliedTransform (analyzeImportStatement (fst m) (snd m)) \<noteq> None
                           \<and> updated (analyzeImportStatement (fst m) (snd m)) \<noteq> fst m) ms))
         (Import_line (description migrated))"
proof (induction ms arbitrary: st)
  case Nil
  show ?case by simp
next
  case (Cons m ms)
  show ?case
    unfolding foldl_Cons Cons.IH import_step_summary by simp
qed

lemma export_step_summary:
  "summary (export_step st m) =
     summary st @
       (if determineTransform (snd m) [] \<noteq> None
           \<and> replace_first (fst m) (snd m) (newPath migrated) \<noteq> fst m
        then [Export_line (description migrated)] else [])"
  by (auto simp: export_step_def Let_def split: option.splits dest: determineTransform_migrated)

lemma export_fold_summary:
  "summary (foldl export_step st ms) =
     summary st @
       replicate
         (length (filter (\<lambda>m. determineTransform (snd m) [] \<noteq> None
                           \<and> replace_first (fst m) (snd m) (newPath migrated) \<noteq> fst m) ms))
         (Export_line (description migrated))"
proof (induction ms arbitrary: st)
  case Nil
  show ?case by simp
next
  case (Cons m ms)
  show ?case
    unfolding foldl_Cons Cons.IH export_step_summary by simp
qed

lemma raw_step_summary:
  "summary (raw_step st m) =
     summary st @ (if includes_str (updatedContent st) (fst m) then [Text_line (fst m) (snd m)] else [])"
  by (simp add: raw_step_def Let_def)

lemma raw_fold_lines:
  "summary (foldl raw_step st tbl) =
     summary st @
       concat (map (\<lambda>k. if includes_str (updatedContent (foldl raw_step st (take k tbl)))
                              (fst (tbl ! k))
                         then [Text_line (fst (tbl ! k)) (snd (tbl ! k))] else [])
                 [0..<length tbl])"
proof (induction tbl rule: rev_induct)
  case Nil
  show ?case by simp
next
  case (snoc r tbl)
  define F where "F = (\<lambda>t k. if includes_str (updatedContent (foldl raw_step st (take k t)))
                              (fst (t ! k))
                         then [Text_line (fst (t ! k)) (snd (t ! k))] else [])"
  have same: "map (F (tbl @ [r])) [0..<length tbl] = map (F tbl) [0..<length tbl]"
    by (rule map_cong) (simp_all add: F_def nth_append)
  have lst: "F (tbl @ [r]) (length tbl)
      = (if includes_str (updatedContent (foldl raw_step st tbl)) (fst r)
           then [Text_line (fst r) (snd r)] else [])"
    by (simp add: F_def)
  have "[0..<length (tbl @ [r])] = [0..<length tbl] @ [length tbl]" by simp
  then have "concat (map (F (tbl @ [r])) [0..<length (tbl @ [r])])
      = concat (map (F (tbl @ [r])) [0..<length tbl]) @ F (tbl @ [r]) (length tbl)"
    by (simp only: map_append concat_append list.map concat.simps append_Nil2)
  then have cc: "concat (map (F (tbl @ [r])) [0..<length (tbl @ [r])])
      = concat (map (F tbl) [0..<length tbl])
        @ (if includes_str (updatedContent (foldl raw_step st tbl)) (fst r)
           then [Text_line (fst r) (snd r)] else [])"
    by (simp only: same lst)
  have "summary (foldl raw_step st (tbl @ [r]))
      = summary (foldl raw_step st tbl)
        @ (if includes_str (updatedContent (foldl raw_step st tbl)) (fst r)
           then [Text_line (fst r) (snd r)] else [])"
    by (simp add: raw_step_summary)
  also have "summary (foldl raw_step st tbl) = summary st @ concat (map (F tbl) [0..<length tbl])"
    using snoc.IH by (simp only: F_def)
  finally have "summary (foldl raw_step st (tbl @ [r]))
      = summary st @ concat (map (F (tbl @ [r])) [0..<length (tbl @ [r])])"
    by (simp only: cc append_assoc)
  then show ?case by (simp only: F_def)
qed

subsection \<open>Occurrences of a text in a text\<close>

lemma find_index_None_iff:
  "find_index s pat = None \<longleftrightarrow> \<not> sublist pat s"
proof (induction s)
  case Nil
  show ?case by simp
next
  case (Cons c cs)
  show ?case
    using Cons.IH by (simp add: sublist_Cons_right)
qed

lemma includes_str_iff:
  "includes_str s pat \<longleftrightarrow> sublist pat s"
  unfolding includes_str_def find_index_None_iff by simp

lemma matchAll_path_sublist:
  "m \<in> set (matchAll kw s) \<Longrightarrow> sublist (snd m) s"
proof (induction kw s rule: matchAll.induct)
  case (1 kw s)
  show ?case
  proof (cases "match_statement_at kw s")
    case None
    show ?thesis
    proof (cases s)
      case Nil
      with None "1.prems" show ?thesis by simp
    next
      case (Cons c cs)
      with None "1.prems" have "m \<in> set (matchAll kw cs)" by simp
      with "1.IH"(1)[OF None Cons] have "sublist (snd m) cs" by simp
      with Cons show ?thesis by (simp add: sublist_Cons_right)
    qed
  next
    case (Some x)
    obtain n p where x: "x = (n, p)" by (cases x)
    from Some x have ms: "match_statement_at kw s = Some (n, p)" by simp
    from "1.prems" ms have "m = (take n s, p) \<or> m \<in> set (matchAll kw (drop n s))"
      by simp
    then show ?thesis
    proof
      assume "m = (take n s, p)"
      moreover from match_statement_at_bound[OF ms] have "sublist p (take n s)" by simp
      moreover have "sublist (take n s) s" by (rule sublist_take)
      ultimately show ?thesis
        using sublist_order.order_trans by auto
    next
      assume "m \<in> set (matchAll kw (drop n s))"
      with "1.IH"(2)[OF Some x[symmetric]] have "sublist (snd m) (drop n s)" by simp
      moreover have "sublist (drop n s) s" by (rule sublist_drop)
      ultimately show ?thesis
        using sublist_order.order_trans by auto
    qed
  qed
qed

lemma determineTransform_prefix:
  "determineTransform p specs \<noteq> None \<Longrightarrow> prefix ''~~/components/scaffold-eth'' p"
  by (simp add: determineTransform_def startsWith_def split: if_splits)

lemma import_step_no_prefix:
  assumes "\<not> prefix ''~~/components/scaffold-eth'' (snd m)"
  shows "import_step st m = st"
proof -
  have "determineTransform (snd m) specs = None" for specs
    using assms determineTransform_prefix by blast
  then have "appliedTransform (analyzeImportStatement (fst m) (snd m)) = None"
    by (simp add: analyzeImportStatement_def Let_def)
  then show ?thesis by (simp add: import_step_def Let_def)
qed

lemma export_step_no_prefix:
  assumes "\<not> prefix ''~~/components/scaffold-eth'' (snd m)"
  shows "export_step st m = st"
proof -
  have "determineTransform (snd m) [] = None"
    using assms determineTransform_prefix by blast
  then show ?thesis by (simp add: export_step_def Let_def)
qed

lemma foldl_unchanged:
  "(\<And>st m. m \<in> set ms \<Longrightarrow> f st m = st) \<Longrightarrow> foldl f st ms = st"
  by (induction ms arbitrary: st) simp_all

lemma no_bare_no_match_prefix:
  assumes "\<not> sublist ''~~/components/scaffold-eth'' s" and "m \<in> set (matchAll kw s)"
  shows "\<not> prefix ''~~/components/scaffold-eth'' (snd m)"
proof
  assume "prefix ''~~/components/scaffold-eth'' (snd m)"
  then have "sublist ''~~/components/scaffold-eth'' (snd m)" by (rule prefix_imp_sublist)
  moreover have "sublist (snd m) s" using assms(2) by (rule matchAll_path_sublist)
  ultimately have "sublist ''~~/components/scaffold-eth'' s"
    using sublist_order.order_trans by blast
  with assms(1) show False by simp
qed

lemma raw_legacy_prefix:
  "m \<in> set RAW_PATH_REPLACEMENTS \<Longrightarrow> prefix ''~~/components/scaffold-eth'' (fst m)"
  by (auto simp: RAW_PATH_REPLACEMENTS_def)

lemma raw_step_absent:
  "\<not> sublist (fst m) (updatedContent st) \<Longrightarrow> raw_step st m = st"
  by (simp add: raw_step_def Let_def includes_str_iff)

subsection \<open>Replacing all occurrences\<close>

lemma find_index_first:
  "find_index s sep = Some i \<Longrightarrow> sep \<noteq> [] \<Longrightarrow> \<not> sublist sep (take i s)"
proof (induction s arbitrary: i)
  case Nil
  then show ?case by simp
next
  case (Cons c cs)
  show ?case
  proof (cases "prefix sep (c # cs)")
    case True
    with Cons.prems show ?thesis by simp
  next
    case False
    with Cons.prems obtain j where j: "find_index cs sep = Some j" and i: "i = Suc j"
      by auto
    from Cons.IH[OF j Cons.prems(2)] have a: "\<not> sublist sep (take j cs)" .
    have b: "\<not> prefix sep (c # take j cs)"
    proof
      assume "prefix sep (c # take j cs)"
      moreover have "prefix (c # take j cs) (c # cs)" by (simp add: take_is_prefix)
      ultimately have "prefix sep (c # cs)" by (rule prefix_order.order_trans)
      with False show False by simp
    qed
    from a b show ?thesis unfolding i by (simp add: sublist_Cons_right)
  qed
qed

lemma split_str_pieces:
  "sep \<noteq> [] \<Longrightarrow> p \<in> set (split_str s sep) \<Longrightarrow> sublist p s \<and> \<not> sublist sep p"
proof (induction s sep rule: split_str.induct)
  case (1 s sep)
  show ?case
  proof (cases "find_index s sep")
    case None
    with "1.prems" have "p = s" by simp
    with None show ?thesis by (simp add: find_index_None_iff)
  next
    case (Some i)
    with "1.prems" have "p = take i s \<or> p \<in> set (split_str (drop (i + length sep) s) sep)"
      by simp
    then show ?thesis
    proof
      assume "p = take i s"
      then show ?thesis
        using find_index_first[OF Some "1.prems"(1)] by (simp add: sublist_take)
    next
      assume "p \<in> set (split_str (drop (i + length sep) s) sep)"
      with "1.IH"[OF "1.prems"(1) Some "1.prems"(1)]
      have "sublist p (drop (i + length sep) s)" and n: "\<not> sublist sep p" by simp_all
      moreover have "sublist (drop (i + length sep) s) s" by (rule sublist_drop)
      ultimately have "sublist p s" using sublist_order.order_trans by blast
      with n show ?thesis by simp
    qed
  qed
qed

lemma sublist_across_absent:
  "sublist l (xs @ a # ys) \<Longrightarrow> a \<notin> set l \<Longrightarrow> sublist l xs \<or> sublist l ys"
proof (induction xs)
  case Nil
  then have "prefix l (a # ys) \<or> sublist l ys" by (simp add: sublist_Cons_right)
  then show ?case
  proof
    assume "prefix l (a # ys)"
    with Nil.prems(2) have "l = []" by (cases l) auto
    then show ?thesis by simp
  next
    assume "sublist l ys"
    then show ?thesis by simp
  qed
next
  case (Cons x xs)
  from Cons.prems(1) have "prefix l ((x # xs) @ a # ys) \<or> sublist l (xs @ a # ys)"
    by (simp add: sublist_Cons_right)
  then show ?case
  proof
    assume "prefix l ((x # xs) @ a # ys)"
    then have "prefix l (x # xs) \<or> (\<exists>us. l = (x # xs) @ us \<and> prefix us (a # ys))"
      unfolding prefix_append by blast
    then show ?thesis
    proof
      assume "prefix l (x # xs)"
      then show ?thesis using prefix_imp_sublist by blast
    next
      assume "\<exists>us. l = (x # xs) @ us \<and> prefix us (a # ys)"
      then obtain us where l: "l = (x # xs) @ us" and u: "prefix us (a # ys)" by blast
      from l Cons.prems(2) have "a \<notin> set us" by simp
      with u have "us = []" by (cases us) auto
      with l show ?thesis by simp
    qed
  next
    assume "sublist l (xs @ a # ys)"
    from Cons.IH[OF this Cons.prems(2)] show ?thesis
      by (auto simp: sublist_Cons_right)
  qed
qed

lemma sublist_after_absent_head:
  "sublist l (xs @ ys) \<Longrightarrow> l \<noteq> [] \<Longrightarrow> hd l \<notin> set xs \<Longrightarrow> sublist l ys"
proof (induction xs)
  case Nil
  then show ?case by simp
next
  case (Cons x xs)
  from Cons.prems(1) have "prefix l (x # xs @ ys) \<or> sublist l (xs @ ys)"
    by (simp add: sublist_Cons_right)
  then show ?case
  proof
    assume "prefix l (x # xs @ ys)"
    with Cons.prems(2) have "hd l = x" by (cases l) auto
    with Cons.prems(3) show ?thesis by simp
  next
    assume "sublist l (xs @ ys)"
    with Cons show ?thesis by simp
  qed
qed

lemma join_str_no_new:
  assumes "l \<noteq> []" and "m \<noteq> []" and "hd l \<notin> set m" and "hd m \<notin> set l"
  shows "sublist l (join_str ps m) \<Longrightarrow> \<exists>p \<in> set ps. sublist l p"
proof (induction ps)
  case Nil
  with assms(1) show ?case by simp
next
  case (Cons p ps)
  show ?case
  proof (cases ps)
    case Nil
    with Cons.prems show ?thesis by simp
  next
    case (Cons q qs)
    from assms(2) obtain a m' where m: "m = a # m'" by (cases m) auto
    from assms(3) m have hm: "hd l \<notin> set m'" by simp
    from assms(4) m have al: "a \<notin> set l" by simp
    from Cons.prems Cons m have "sublist l (p @ a # (m' @ join_str ps m))"
      by simp
    from sublist_across_absent[OF this al]
    have "sublist l p \<or> sublist l (m' @ join_str ps m)" .
    then show ?thesis
    proof
      assume "sublist l p"
      then show ?thesis by simp
    next
      assume "sublist l (m' @ join_str ps m)"
      from sublist_after_absent_head[OF this assms(1) hm]
      have "sublist l (join_str ps m)" .
      with Cons.IH show ?thesis by auto
    qed
  qed
qed

lemma replace_all_removes:
  assumes "l \<noteq> []" and "m \<noteq> []" and "hd l \<notin> set m" and "hd m \<notin> set l"
  shows "\<not> sublist l (join_str (split_str s l) m)"
proof
  assume "sublist l (join_str (split_str s l) m)"
  from join_str_no_new[OF assms this] obtain p where
    "p \<in> set (split_str s l)" and "sublist l p" by blast
  with split_str_pieces[OF assms(1)] show False by blast
qed

lemma replace_all_no_new:
  assumes "l' \<noteq> []" and "m \<noteq> []" and "hd l' \<notin> set m" and "hd m \<notin> set l'"
    and "l \<noteq> []" and "\<not> sublist l' s"
  shows "\<not> sublist l' (join_str (split_str s l) m)"
proof
  assume "sublist l' (join_str (split_str s l) m)"
  from join_str_no_new[OF assms(1-4) this] obtain p where
    "p \<in> set (split_str s l)" and p: "sublist l' p" by blast
  with split_str_pieces[OF assms(5)] have "sublist p s" by blast
  with p have "sublist l' s" using sublist_order.order_trans by blast
  with assms(6) show False by simp
qed

lemma raw_step_removes:
  assumes "replaceable (fst r) (snd r)"
  shows "\<not> sublist (fst r) (updatedContent (raw_step st r))"
proof (cases "includes_str (updatedContent st) (fst r)")
  case True
  then have "updatedContent (raw_step st r)
      = join_str (split_str (updatedContent st) (fst r)) (snd r)"
    by (simp add: raw_step_def Let_def)
  with assms show ?thesis
    using replace_all_removes by (simp add: replaceable_def)
next
  case False
  then show ?thesis by (simp add: raw_step_def Let_def includes_str_iff)
qed

lemma raw_step_no_new:
  assumes "replaceable l (snd r)" and "fst r \<noteq> []" and "\<not> sublist l (updatedContent st)"
  shows "\<not> sublist l (updatedContent (raw_step st r))"
proof (cases "includes_str (updatedContent st) (fst r)")
  case True
  then have "updatedContent (raw_step st r)
      = join_str (split_str (updatedContent st) (fst r)) (snd r)"
    by (simp add: raw_step_def Let_def)
  with assms show ?thesis
    using replace_all_no_new by (simp add: replaceable_def)
next
  case False
  with assms(3) show ?thesis by (simp add: raw_step_def Let_def)
qed

lemma raw_fold_no_new:
  assumes "\<forall>r \<in> set tbl. replaceable l (snd r) \<and> fst r \<noteq> []"
    and "\<not> sublist l (updatedContent st)"
  shows "\<not> sublist l (updatedContent (foldl raw_step st tbl))"
  using assms
proof (induction tbl arbitrary: st)
  case Nil
  then show ?case by simp
next
  case (Cons r tbl)
  from Cons.prems have "\<not> sublist l (updatedContent (raw_step st r))"
    using raw_step_no_new by simp
  with Cons show ?case by simp
qed

lemma raw_fold_removes:
  assumes "\<forall>r \<in> set tbl. \<forall>r' \<in> set tbl. replaceable (fst r') (snd r)"
    and "r \<in> set tbl"
  shows "\<not> sublist (fst r) (updatedContent (foldl raw_step st tbl))"
  using assms
proof (induction tbl arbitrary: st)
  case Nil
  then show ?case by simp
next
  case (Cons q tbl)
  from Cons.prems(2) have "r = q \<or> r \<in> set tbl" by auto
  then show ?case
  proof
    assume rq: "r = q"
    from Cons.prems(1) have "replaceable (fst q) (snd q)" by simp
    then have a: "\<not> sublist (fst q) (updatedContent (raw_step st q))"
      by (rule raw_step_removes)
    have b: "\<forall>r' \<in> set tbl. replaceable (fst q) (snd r') \<and> fst r' \<noteq> []"
      using Cons.prems(1) by (auto simp: replaceable_def)
    from raw_fold_no_new[OF b a] show ?thesis unfolding rq by simp
  next
    assume "r \<in> set tbl"
    moreover from Cons.prems(1)
    have "\<forall>r \<in> set tbl. \<forall>r' \<in> set tbl. replaceable (fst r') (snd r)" by simp
    ultimately show ?thesis using Cons.IH by simp
  qed
qed

lemma raw_table_replaceable:
  "\<forall>r \<in> set RAW_PATH_REPLACEMENTS. \<forall>r' \<in> set RAW_PATH_REPLACEMENTS. replaceable (fst r') (snd r)"
  by (simp add: RAW_PATH_REPLACEMENTS_def COMPONENT_TARGET_def replaceable_def)

lemma replace_every_absent:
  "find_index s l = None \<Longrightarrow> replace_every l m s = s"
proof (induction s)
  case Nil
  show ?case by simp
next
  case (Cons c cs)
  then show ?case by (auto split: if_splits)
qed

lemma replace_every_first:
  "find_index s l = Some i \<Longrightarrow> l \<noteq> [] \<Longrightarrow>
     replace_every l m s = take i s @ m @ replace_every l m (drop (i + length l) s)"
proof (induction s arbitrary: i)
  case Nil
  then show ?case by simp
next
  case (Cons c cs)
  show ?case
  proof (cases "prefix l (c # cs)")
    case True
    with Cons.prems show ?thesis by simp
  next
    case False
    with Cons.prems obtain j where j: "find_index cs l = Some j" and i: "i = Suc j"
      by auto
    from Cons.IH[OF j Cons.prems(2)] False show ?thesis
      unfolding i by simp
  qed
qed

lemma split_str_unfold:
  "sep \<noteq> [] \<Longrightarrow>
     split_str s sep =
       (case find_index s sep of
          None \<Rightarrow> [s]
        | Some i \<Rightarrow> take i s # split_str (drop (i + length sep) s) sep)"
  by (subst split_str.simps) (simp del: split_str.simps)

lemma split_str_not_Nil:
  "sep \<noteq> [] \<Longrightarrow> split_str s sep \<noteq> []"
  by (subst split_str_unfold) (simp_all del: split_str.simps split: option.split)

lemma join_split_replace_every:
  "l \<noteq> [] \<Longrightarrow> join_str (split_str s l) m = replace_every l m s"
proof (induction s l rule: split_str.induct)
  case (1 s sep)
  show ?case
  proof (cases "find_index s sep")
    case None
    then show ?thesis
      using "1.prems"
      by (subst split_str_unfold) (simp_all del: split_str.simps add: replace_every_absent)
  next
    case (Some i)
    from split_str_not_Nil[OF "1.prems"] obtain q qs where
      q: "split_str (drop (i + length sep) s) sep = q # qs"
      by (cases "split_str (drop (i + length sep) s) sep") auto
    have "join_str (split_str s sep) m
        = take i s @ m @ join_str (split_str (drop (i + length sep) s) sep) m"
      using "1.prems" Some
      by (subst split_str_unfold) (simp_all del: split_str.simps add: q)
    also have "join_str (split_str (drop (i + length sep) s) sep) m
        = replace_every sep m (drop (i + length sep) s)"
      using "1.IH"[OF "1.prems" Some "1.prems"] .
    finally show ?thesis
      using replace_every_first[OF Some "1.prems", of m] by simp
  qed
qed

lemma raw_step_replace_every:
  assumes "fst r \<noteq> []"
  shows "updatedContent (raw_step st r) = replace_every (fst r) (snd r) (updatedContent st)"
proof (cases "includes_str (updatedContent st) (fst r)")
  case True
  then show ?thesis
    using assms
    by (simp del: split_str.simps add: raw_step_def Let_def join_split_replace_every)
next
  case False
  then have "find_index (updatedContent st) (fst r) = None"
    by (simp add: includes_str_def)
  then show ?thesis
    using False by (simp add: raw_step_def Let_def replace_every_absent)
qed

lemma raw_fold_replace_every:
  "\<forall>r \<in> set tbl. fst r \<noteq> [] \<Longrightarrow>
     updatedContent (foldl raw_step st tbl)
       = foldl (\<lambda>t r. replace_every (fst r) (snd r) t) (updatedContent st) tbl"
proof (induction tbl arbitrary: st)
  case Nil
  show ?case by simp
next
  case (Cons r tbl)
  then show ?case by (simp add: raw_step_replace_every)
qed

lemma replace_every_skip:
  "l \<noteq> [] \<Longrightarrow> hd l \<notin> set w \<Longrightarrow> replace_every l m (w @ rest) = w @ replace_every l m rest"
proof (induction w)
  case Nil
  show ?case by simp
next
  case (Cons c w)
  have "\<not> prefix l (c # w @ rest)"
  proof
    assume "prefix l (c # w @ rest)"
    with Cons.prems(1) have "hd l = c" by (cases l) auto
    with Cons.prems(2) show False by simp
  qed
  with Cons show ?case by simp
qed

lemma replace_every_hit:
  "l \<noteq> [] \<Longrightarrow> replace_every l m (l @ rest) = m @ replace_every l m rest"
  by (cases l) simp_all

lemma replace_every_pass_legacy:
  assumes "legacy_like l" and "legacy_like h" and "\<not> prefix l (h @ rest)"
  shows "replace_every l m (h @ rest) = h @ replace_every l m rest"
proof -
  from assms(1) obtain rl where l: "l = ''~~'' @ rl" by (auto simp: legacy_like_def)
  from assms(2) obtain rh where h: "h = ''~~'' @ rh" and rh: "rh \<noteq> []" "CHR ''~'' \<notin> set rh"
    by (auto simp: legacy_like_def)
  from rh obtain x xs where x: "rh = x # xs" "x \<noteq> CHR ''~''" by (cases rh) auto
  have a: "\<not> prefix l (CHR ''~'' # rh @ rest)"
    unfolding l using x by simp
  have ln: "l \<noteq> []" "hd l = CHR ''~''" unfolding l by simp_all
  have "replace_every l m (rh @ rest) = rh @ replace_every l m rest"
    using ln rh(2) by (simp add: replace_every_skip)
  with assms(3) a show ?thesis
    unfolding h using ln(1) by simp
qed

lemma prefix_stops:
  assumes "prefix e (u @ X)" and "X = [] \<or> hd X \<notin> set e"
  shows "prefix e u"
proof -
  from assms(1) have "prefix e u \<or> (\<exists>us. e = u @ us \<and> prefix us X)"
    unfolding prefix_append by blast
  then show ?thesis
  proof
    assume "prefix e u"
    then show ?thesis .
  next
    assume "\<exists>us. e = u @ us \<and> prefix us X"
    then obtain us where e: "e = u @ us" and p: "prefix us X" by blast
    show ?thesis
    proof (cases us)
      case Nil
      with e show ?thesis by simp
    next
      case (Cons y ys)
      with p obtain X' where "X = y # X'" by (cases X) auto
      with assms(2) have "y \<notin> set e" by simp
      with e Cons show ?thesis by simp
    qed
  qed
qed

lemma legacy_prefix_stops:
  assumes l: "legacy_like l" and h: "legacy_like h"
    and p: "prefix l (h @ u @ X)"
    and X: "X = [] \<or> hd X = CHR ''~'' \<or> hd X = CHR ''@''"
  shows "prefix l (h @ u)"
proof -
  from l obtain rl where l': "l = ''~~'' @ rl" and rl: "CHR ''~'' \<notin> set rl" "CHR ''@'' \<notin> set rl"
    by (auto simp: legacy_like_def)
  from h obtain rh where h': "h = ''~~'' @ rh" by (auto simp: legacy_like_def)
  from p have "prefix rl ((rh @ u) @ X)" unfolding l' h' by simp
  moreover from X rl have "X = [] \<or> hd X \<notin> set rl" by auto
  ultimately have "prefix rl (rh @ u)" by (rule prefix_stops)
  then show ?thesis unfolding l' h' by simp
qed

lemma render_Cons: "render (x # items) = fst x @ snd x @ render items"
  by (simp add: render_def)

lemma render_head:
  assumes "\<forall>x \<in> set items. target_like (fst x) \<or> legacy_like (fst x)"
  shows "render items = [] \<or> hd (render items) = CHR ''~'' \<or> hd (render items) = CHR ''@''"
proof (cases items)
  case Nil
  then show ?thesis by (simp add: render_def)
next
  case (Cons x xs)
  with assms have "target_like (fst x) \<or> legacy_like (fst x)" by simp
  then show ?thesis
    unfolding Cons render_Cons by (auto simp: target_like_def legacy_like_def)
qed

lemma replace_every_items:
  assumes l: "legacy_like l" and t: "target_like T"
    and items: "\<forall>x \<in> set items. CHR ''~'' \<notin> set (snd x)
        \<and> (fst x = T \<or> legacy_like (fst x))
        \<and> (fst x \<noteq> l \<and> fst x \<noteq> T \<longrightarrow> \<not> prefix l (fst x @ snd x))"
  shows "replace_every l T (render items)
      = render (map (\<lambda>x. (if fst x = l then T else fst x, snd x)) items)"
  using items
proof (induction items)
  case Nil
  show ?case by (simp add: render_def)
next
  case (Cons x items)
  define h where "h = fst x"
  define u where "u = snd x"
  define R where "R = render items"
  from l have ln: "l \<noteq> []" "hd l = CHR ''~''" by (auto simp: legacy_like_def)
  from Cons.prems have u: "CHR ''~'' \<notin> set u" and hh: "h = T \<or> legacy_like h"
    and np: "h \<noteq> l \<and> h \<noteq> T \<longrightarrow> \<not> prefix l (h @ u)"
    by (simp_all add: h_def u_def)
  from Cons.prems have rest: "\<forall>x \<in> set items. CHR ''~'' \<notin> set (snd x)
        \<and> (fst x = T \<or> legacy_like (fst x))
        \<and> (fst x \<noteq> l \<and> fst x \<noteq> T \<longrightarrow> \<not> prefix l (fst x @ snd x))"
    by simp
  from Cons.IH[OF rest] have IH: "replace_every l T R
      = render (map (\<lambda>x. (if fst x = l then T else fst x, snd x)) items)"
    by (simp add: R_def)
  have su: "replace_every l T (u @ R) = u @ replace_every l T R"
    using ln u by (simp add: replace_every_skip)
  have Rh: "R = [] \<or> hd R = CHR ''~'' \<or> hd R = CHR ''@''"
    unfolding R_def
  proof (rule render_head)
    show "\<forall>x \<in> set items. target_like (fst x) \<or> legacy_like (fst x)"
      using rest t by auto
  qed
  have step: "replace_every l T (h @ u @ R) = (if h = l then T else h) @ u @ replace_every l T R"
  proof (cases "h = l")
    case True
    then show ?thesis using ln(1) su by (simp add: replace_every_hit)
  next
    case False
    show ?thesis
    proof (cases "h = T")
      case True
      from t have "CHR ''~'' \<notin> set T" by (auto simp: target_like_def)
      with u have "hd l \<notin> set (T @ u)" using ln(2) by simp
      with ln(1) have "replace_every l T ((T @ u) @ R) = (T @ u) @ replace_every l T R"
        by (rule replace_every_skip)
      with True False show ?thesis by simp
    next
      case hT: False
      with hh have lh: "legacy_like h" by simp
      from np False hT have "\<not> prefix l (h @ u)" by simp
      with legacy_prefix_stops[OF l lh _ Rh] have "\<not> prefix l (h @ u @ R)" by blast
      from replace_every_pass_legacy[OF l lh this]
      show ?thesis using False su by simp
    qed
  qed
  have "render (x # items) = h @ u @ R"
    by (simp add: render_Cons h_def u_def R_def)
  moreover have "render (map (\<lambda>x. (if fst x = l then T else fst x, snd x)) (x # items))
      = (if h = l then T else h) @ u
        @ render (map (\<lambda>x. (if fst x = l then T else fst x, snd x)) items)"
    by (simp add: render_Cons h_def u_def)
  ultimately show ?case using step IH by simp
qed

lemma replace_rules_items:
  assumes t: "target_like T"
  shows "\<forall>l \<in> set ps. legacy_like l \<Longrightarrow> sorted_wrt (\<lambda>a b. \<not> prefix a b) ps \<Longrightarrow> distinct ps \<Longrightarrow>
     \<forall>x \<in> set items. CHR ''~'' \<notin> set (snd x) \<and> (fst x = T \<or> fst x \<in> set ps)
        \<and> (\<forall>l \<in> set ps. prefix l (fst x @ snd x) \<longrightarrow> prefix l (fst x)) \<Longrightarrow>
     foldl (\<lambda>s l. replace_every l T s) (render items) ps
       = render (map (\<lambda>x. (T, snd x)) items)"
proof (induction ps arbitrary: items)
  case Nil
  then have "map (\<lambda>x. (T, snd x)) items = items"
    by (intro map_idI) (auto simp: prod_eq_iff)
  then show ?case by simp
next
  case (Cons l ps)
  from Cons.prems(1) have l: "legacy_like l" and ls: "\<forall>l \<in> set ps. legacy_like l" by simp_all
  from Cons.prems(2) have lp: "\<forall>h \<in> set ps. \<not> prefix l h"
    and sp: "sorted_wrt (\<lambda>a b. \<not> prefix a b) ps" by simp_all
  from Cons.prems(3) have nl: "l \<notin> set ps" and dp: "distinct ps" by simp_all
  from t l have Tl: "T \<noteq> l" by (auto simp: target_like_def legacy_like_def)
  have c1: "\<forall>x \<in> set items. CHR ''~'' \<notin> set (snd x)
        \<and> (fst x = T \<or> legacy_like (fst x))
        \<and> (fst x \<noteq> l \<and> fst x \<noteq> T \<longrightarrow> \<not> prefix l (fst x @ snd x))"
  proof
    fix x assume x: "x \<in> set items"
    with Cons.prems(4) have a: "CHR ''~'' \<notin> set (snd x)"
      and b: "fst x = T \<or> fst x \<in> set (l # ps)"
      and c: "prefix l (fst x @ snd x) \<longrightarrow> prefix l (fst x)"
      by auto
    from b Cons.prems(1) have "fst x = T \<or> legacy_like (fst x)" by auto
    moreover have "fst x \<noteq> l \<and> fst x \<noteq> T \<longrightarrow> \<not> prefix l (fst x @ snd x)"
    proof (intro impI)
      assume "fst x \<noteq> l \<and> fst x \<noteq> T"
      with b have "fst x \<in> set ps" by simp
      with lp have "\<not> prefix l (fst x)" by simp
      with c show "\<not> prefix l (fst x @ snd x)" by blast
    qed
    ultimately show "CHR ''~'' \<notin> set (snd x)
        \<and> (fst x = T \<or> legacy_like (fst x))
        \<and> (fst x \<noteq> l \<and> fst x \<noteq> T \<longrightarrow> \<not> prefix l (fst x @ snd x))"
      using a by simp
  qed
  define items' where "items' = map (\<lambda>x. (if fst x = l then T else fst x, snd x)) items"
  from replace_every_items[OF l t c1]
  have s1: "replace_every l T (render items) = render items'"
    by (simp add: items'_def)
  have c2: "\<forall>x \<in> set items'. CHR ''~'' \<notin> set (snd x) \<and> (fst x = T \<or> fst x \<in> set ps)
        \<and> (\<forall>l \<in> set ps. prefix l (fst x @ snd x) \<longrightarrow> prefix l (fst x))"
  proof
    fix y assume "y \<in> set items'"
    then obtain x where x: "x \<in> set items" and y: "y = (if fst x = l then T else fst x, snd x)"
      by (auto simp: items'_def)
    from x Cons.prems(4) have a: "CHR ''~'' \<notin> set (snd x)"
      and b: "fst x = T \<or> fst x \<in> set (l # ps)"
      and c: "\<forall>l' \<in> set ps. prefix l' (fst x @ snd x) \<longrightarrow> prefix l' (fst x)"
      by auto
    have tp: "\<not> prefix l' (T @ v)" if "l' \<in> set ps" for l' v
      using that ls t by (auto simp: target_like_def legacy_like_def)
    show "CHR ''~'' \<notin> set (snd y) \<and> (fst y = T \<or> fst y \<in> set ps)
        \<and> (\<forall>l \<in> set ps. prefix l (fst y @ snd y) \<longrightarrow> prefix l (fst y))"
    proof (cases "fst x = l")
      case True
      with y a tp show ?thesis by simp
    next
      case False
      with y a b c show ?thesis by auto
    qed
  qed
  have "map (\<lambda>x. (T, snd x)) items' = map (\<lambda>x. (T, snd x)) items"
    by (simp add: items'_def comp_def)
  with Cons.IH[OF ls sp dp c2] s1 show ?case by simp
qed

lemma replace_rules_skip:
  "\<forall>l \<in> set ps. legacy_like l \<Longrightarrow> CHR ''~'' \<notin> set w \<Longrightarrow>
     foldl (\<lambda>s l. replace_every l T s) (w @ t) ps = w @ foldl (\<lambda>s l. replace_every l T s) t ps"
proof (induction ps arbitrary: t)
  case Nil
  show ?case by simp
next
  case (Cons l ps)
  from Cons.prems(1) have "l \<noteq> []" "hd l = CHR ''~''" by (auto simp: legacy_like_def)
  with Cons.prems(2) have "replace_every l T (w @ t) = w @ replace_every l T t"
    by (simp add: replace_every_skip)
  with Cons show ?case by simp
qed

lemma raw_table_legacy_like:
  "\<forall>l \<in> set (map fst RAW_PATH_REPLACEMENTS). legacy_like l"
  by (simp add: RAW_PATH_REPLACEMENTS_def legacy_like_def)

lemma raw_pass_items:
  assumes w: "CHR ''~'' \<notin> set w"
    and items: "\<forall>p \<in> set items. fst p \<in> set (map fst RAW_PATH_REPLACEMENTS)
        \<and> CHR ''~'' \<notin> set (snd p)
        \<and> (\<forall>l \<in> set (map fst RAW_PATH_REPLACEMENTS).
              prefix l (fst p @ snd p) \<longrightarrow> prefix l (fst p))"
  shows "updatedContent
      (raw_pass \<lparr>updatedContent = w @ concat (map (\<lambda>p. fst p @ snd p) items), summary = s\<rparr>)
     = w @ concat (map (\<lambda>p. ''@scaffold-ui/components'' @ snd p) items)"
proof -
  define T where "T = ''@scaffold-ui/components''"
  define ps where "ps = map fst RAW_PATH_REPLACEMENTS"
  have t: "target_like T" by (simp add: target_like_def T_def)
  have ne: "\<forall>r \<in> set RAW_PATH_REPLACEMENTS. fst r \<noteq> []"
    by (simp add: RAW_PATH_REPLACEMENTS_def)
  have fold: "foldl (\<lambda>t r. replace_every (fst r) (snd r) t) z RAW_PATH_REPLACEMENTS
      = foldl (\<lambda>s l. replace_every l T s) z ps" for z
    by (simp add: ps_def T_def RAW_PATH_REPLACEMENTS_def COMPONENT_TARGET_def)
  have ll: "\<forall>l \<in> set ps. legacy_like l"
    unfolding ps_def by (rule raw_table_legacy_like)
  have so: "sorted_wrt (\<lambda>a b. \<not> prefix a b) ps"
    by (simp add: ps_def RAW_PATH_REPLACEMENTS_def)
  have di: "distinct ps"
    by (simp add: ps_def RAW_PATH_REPLACEMENTS_def)
  have c: "\<forall>x \<in> set items. CHR ''~'' \<notin> set (snd x) \<and> (fst x = T \<or> fst x \<in> set ps)
        \<and> (\<forall>l \<in> set ps. prefix l (fst x @ snd x) \<longrightarrow> prefix l (fst x))"
    using items unfolding ps_def by blast
  have "updatedContent
      (raw_pass \<lparr>updatedContent = w @ render items, summary = s\<rparr>)
     = foldl (\<lambda>s l. replace_every l T s) (w @ render items) ps"
    unfolding raw_pass_def raw_fold_replace_every[OF ne] fold by simp
  also have "\<dots> = w @ foldl (\<lambda>s l. replace_every l T s) (render items) ps"
    using ll w by (rule replace_rules_skip)
  also have "foldl (\<lambda>s l. replace_every l T s) (render items) ps
      = render (map (\<lambda>x. (T, snd x)) items)"
    using t ll so di c by (rule replace_rules_items)
  finally show ?thesis
    by (simp add: render_def T_def comp_def)
qed

subsection \<open>Parsing and rebuilding one entry of a named-import clause\<close>




























section \<open>The claims of the specification\<close>

subsection \<open>The bare path and the legacy specifiers\<close>

text \<open>
  Claim C1 does not hold of the code. The import expression matches from any
  \<open>import\<close> that whitespace follows, also in a comment or a statement without
  \<open>from\<close>, up to the next \<open>from\<close> clause; the analysis reads the first brace clause of
  the matched text and the rewriter replaces the first occurrence of the path in it.
  In the file \<open>import "~~/components/scaffold-eth/styles.css";\<close>, new line,
  \<open>import { Address } from "~~/components/scaffold-eth";\<close> the transform is applied, a
  summary line is written, and the import of \<open>Address\<close> keeps the bare path. In the
  file \<open>// import { Address } later\<close>, new line,
  \<open>import { useState } from "~~/components/scaffold-eth";\<close> the one match starts in the
  comment, and the import of \<open>useState\<close>, which names no legacy component, is rewritten.
\<close>

theorem C1_gate_misses_the_statement:
  "transformContent
      (''import '' @ quoted ''~~/components/scaffold-eth/styles.css'' @ '';'' @ [CHR 0x0A]
       @ ''import { Address } from '' @ quoted ''~~/components/scaffold-eth'' @ '';'')
     = \<lparr>updatedContent =
          ''import '' @ quoted ''@scaffold-ui/components/styles.css'' @ '';'' @ [CHR 0x0A]
          @ ''import { Address } from '' @ quoted ''~~/components/scaffold-eth'' @ '';'',
        summary = [Import_line ''components import migrated to @scaffold-ui/components'']\<rparr>
   \<and> matchAll ''import''
      (''// import { Address } later'' @ [CHR 0x0A]
       @ ''import { useState } from '' @ quoted ''~~/components/scaffold-eth'' @ '';'')
     = [(''import { Address } later'' @ [CHR 0x0A]
          @ ''import { useState } from '' @ quoted ''~~/components/scaffold-eth'' @ '';'',
         ''~~/components/scaffold-eth'')]
   \<and> transformContent
      (''// import { Address } later'' @ [CHR 0x0A]
       @ ''import { useState } from '' @ quoted ''~~/components/scaffold-eth'' @ '';'')
     = \<lparr>updatedContent =
          ''// import { Address } later'' @ [CHR 0x0A]
          @ ''import { useState } from '' @ quoted ''@scaffold-ui/components'' @ '';'',
        summary = [Import_line ''components import migrated to @scaffold-ui/components'']\<rparr>"
proof -
  have a: "transformContent
      (''import '' @ quoted ''~~/components/scaffold-eth/styles.css'' @ '';'' @ [CHR 0x0A]
       @ ''import { Address } from '' @ quoted ''~~/components/scaffold-eth'' @ '';'')
     = \<lparr>updatedContent =
          ''import '' @ quoted ''@scaffold-ui/components/styles.css'' @ '';'' @ [CHR 0x0A]
          @ ''import { Address } from '' @ quoted ''~~/components/scaffold-eth'' @ '';'',
        summary = [Import_line ''components import migrated to @scaffold-ui/components'']\<rparr>"
    by code_simp
  have b: "matchAll ''import''
      (''// import { Address } later'' @ [CHR 0x0A]
       @ ''import { useState } from '' @ quoted ''~~/components/scaffold-eth'' @ '';'')
     = [(''import { Address } later'' @ [CHR 0x0A]
          @ ''import { useState } from '' @ quoted ''~~/components/scaffold-eth'' @ '';'',
         ''~~/components/scaffold-eth'')]"
    by code_simp
  have c: "transformContent
      (''// import { Address } later'' @ [CHR 0x0A]
       @ ''import { useState } from '' @ quoted ''~~/components/scaffold-eth'' @ '';'')
     = \<lparr>updatedContent =
          ''// import { Address } later'' @ [CHR 0x0A]
          @ ''import { useState } from '' @ quoted ''@scaffold-ui/components'' @ '';'',
        summary = [Import_line ''components import migrated to @scaffold-ui/components'']\<rparr>"
    by code_simp
  from a b c show ?thesis by blast
qed

subsection \<open>The rename of \<open>InputBase\<close>\<close>

text \<open>
  Claim C2 does not hold of the code. In the file \<open>// import { Address } x\<close>, new line,
  \<open>import { InputBase } from "~~/components/scaffold-eth";\<close> the match starts in the
  comment, the brace clause the analysis reads is the one of the comment, and the rename
  rule is applied to it: the statement gets the new path and its specifier \<open>InputBase\<close>
  stays as it is. And a rebuilt clause is handed to \<open>replace\<close> as a replacement text:
  in \<open>import { InputBase as My$$Input } from "~~/components/scaffold-eth";\<close> the explicit
  alias comes out as \<open>My$Input\<close>.
\<close>

theorem C2_InputBase_left_unrenamed:
  "transformContent
      (''// import { Address } x'' @ [CHR 0x0A]
       @ ''import { InputBase } from '' @ quoted ''~~/components/scaffold-eth'' @ '';'')
     = \<lparr>updatedContent =
          ''// import { Address } x'' @ [CHR 0x0A]
          @ ''import { InputBase } from '' @ quoted ''@scaffold-ui/components'' @ '';'',
        summary = [Import_line ''components import migrated to @scaffold-ui/components'']\<rparr>
   \<and> transformContent
      (''import { InputBase as My$$Input } from '' @ quoted ''~~/components/scaffold-eth'' @ '';'')
     = \<lparr>updatedContent =
          ''import { BaseInput as My$Input } from '' @ quoted ''@scaffold-ui/components'' @ '';'',
        summary = [Import_line ''components import migrated to @scaffold-ui/components'']\<rparr>"
proof -
  have a: "transformContent
      (''// import { Address } x'' @ [CHR 0x0A]
       @ ''import { InputBase } from '' @ quoted ''~~/components/scaffold-eth'' @ '';'')
     = \<lparr>updatedContent =
          ''// import { Address } x'' @ [CHR 0x0A]
          @ ''import { InputBase } from '' @ quoted ''@scaffold-ui/components'' @ '';'',
        summary = [Import_line ''components import migrated to @scaffold-ui/components'']\<rparr>"
    by code_simp
  have b: "transformContent
      (''import { InputBase as My$$Input } from '' @ quoted ''~~/components/scaffold-eth'' @ '';'')
     = \<lparr>updatedContent =
          ''import { BaseInput as My$Input } from '' @ quoted ''@scaffold-ui/components'' @ '';'',
        summary = [Import_line ''components import migrated to @scaffold-ui/components'']\<rparr>"
    by code_simp
  from a b show ?thesis by blast
qed

subsection \<open>Running the transform twice\<close>

text \<open>
  Claim C3 does not hold of the code. In the file
  \<open>import "~~/components/scaffold-eth/styles.css";\<close>, new line,
  \<open>import { Address } from "~~/components/scaffold-eth";\<close>
  the import expression matches from the first \<open>import\<close> to the path of the second line.
  The statement rewriter replaces the first occurrence of the bare path in the matched
  text, which lies in the style sheet path; the second run then finds the same match and
  replaces the path of the second line.
\<close>

theorem C3_second_run_changes_text:
  "updatedContent (transformContent
      (''import '' @ quoted ''~~/components/scaffold-eth/styles.css'' @ '';'' @ [CHR 0x0A]
       @ ''import { Address } from '' @ quoted ''~~/components/scaffold-eth'' @ '';''))
     = ''import '' @ quoted ''@scaffold-ui/components/styles.css'' @ '';'' @ [CHR 0x0A]
       @ ''import { Address } from '' @ quoted ''~~/components/scaffold-eth'' @ '';''
   \<and> updatedContent (transformContent
      (''import '' @ quoted ''@scaffold-ui/components/styles.css'' @ '';'' @ [CHR 0x0A]
       @ ''import { Address } from '' @ quoted ''~~/components/scaffold-eth'' @ '';''))
     = ''import '' @ quoted ''@scaffold-ui/components/styles.css'' @ '';'' @ [CHR 0x0A]
       @ ''import { Address } from '' @ quoted ''@scaffold-ui/components'' @ '';''
   \<and> ''import '' @ quoted ''@scaffold-ui/components/styles.css'' @ '';'' @ [CHR 0x0A]
       @ ''import { Address } from '' @ quoted ''~~/components/scaffold-eth'' @ '';''
     \<noteq> ''import '' @ quoted ''@scaffold-ui/components/styles.css'' @ '';'' @ [CHR 0x0A]
       @ ''import { Address } from '' @ quoted ''@scaffold-ui/components'' @ '';''"
proof -
  have r1: "updatedContent (transformContent
      (''import '' @ quoted ''~~/components/scaffold-eth/styles.css'' @ '';'' @ [CHR 0x0A]
       @ ''import { Address } from '' @ quoted ''~~/components/scaffold-eth'' @ '';''))
     = ''import '' @ quoted ''@scaffold-ui/components/styles.css'' @ '';'' @ [CHR 0x0A]
       @ ''import { Address } from '' @ quoted ''~~/components/scaffold-eth'' @ '';''"
    by code_simp
  have r2: "updatedContent (transformContent
      (''import '' @ quoted ''@scaffold-ui/components/styles.css'' @ '';'' @ [CHR 0x0A]
       @ ''import { Address } from '' @ quoted ''~~/components/scaffold-eth'' @ '';''))
     = ''import '' @ quoted ''@scaffold-ui/components/styles.css'' @ '';'' @ [CHR 0x0A]
       @ ''import { Address } from '' @ quoted ''@scaffold-ui/components'' @ '';''"
    by code_simp
  have r3: "''import '' @ quoted ''@scaffold-ui/components/styles.css'' @ '';'' @ [CHR 0x0A]
       @ ''import { Address } from '' @ quoted ''~~/components/scaffold-eth'' @ '';''
     \<noteq> ''import '' @ quoted ''@scaffold-ui/components/styles.css'' @ '';'' @ [CHR 0x0A]
       @ ''import { Address } from '' @ quoted ''@scaffold-ui/components'' @ '';''"
    by (simp add: quoted_def)
  from r1 r2 r3 show ?thesis by blast
qed

subsection \<open>Entries that no rename rule touches\<close>




subsection \<open>Export-from statements with the bare path\<close>

text \<open>
  Claim C5 does not hold of the code: the loop over the export-from matches hands the
  resolver an empty specifier list, so no export-from statement with the bare path is
  ever rewritten, whatever its clause names. The statement
  \<open>export { Address } from "~~/components/scaffold-eth";\<close> comes back unchanged, with an
  empty summary.
\<close>

theorem C5_export_bare_path_unchanged:
  "export_step st (stmt, ''~~/components/scaffold-eth'') = st
   \<and> transformContent (''export { Address } from '' @ quoted ''~~/components/scaffold-eth'' @ '';'')
     = \<lparr>updatedContent = ''export { Address } from '' @ quoted ''~~/components/scaffold-eth'' @ '';'',
        summary = []\<rparr>"
proof -
  have "determineTransform ''~~/components/scaffold-eth'' [] = None"
    by (simp add: determineTransform_cases)
  then have "export_step st (stmt, ''~~/components/scaffold-eth'') = st"
    by (simp add: export_step_def)
  moreover have "transformContent
      (''export { Address } from '' @ quoted ''~~/components/scaffold-eth'' @ '';'')
     = \<lparr>updatedContent = ''export { Address } from '' @ quoted ''~~/components/scaffold-eth'' @ '';'',
        summary = []\<rparr>"
    by code_simp
  ultimately show ?thesis by simp
qed

subsection \<open>The rule table\<close>

text \<open>
  Claim C6, as stated, counts four nested paths. The resolver accepts five nested paths,
  pairwise different, and the raw replacement list has five rows.
\<close>

theorem C6_five_nested_paths:
  "determineTransform ''~~/components/scaffold-eth/Input'' [] = Some migrated
   \<and> determineTransform ''~~/components/scaffold-eth/Input/AddressInput'' [] = Some migrated
   \<and> determineTransform ''~~/components/scaffold-eth/Input/EtherInput'' [] = Some migrated
   \<and> determineTransform ''~~/components/scaffold-eth/Address/Address'' [] = Some migrated
   \<and> determineTransform ''~~/components/scaffold-eth/Address'' [] = Some migrated
   \<and> distinct [''~~/components/scaffold-eth/Input'',
        ''~~/components/scaffold-eth/Input/AddressInput'',
        ''~~/components/scaffold-eth/Input/EtherInput'',
        ''~~/components/scaffold-eth/Address/Address'',
        ''~~/components/scaffold-eth/Address'']
   \<and> length RAW_PATH_REPLACEMENTS = 5"
  by (simp add: determineTransform_def startsWith_def RAW_PATH_REPLACEMENTS_def)

text \<open>
  Claim C6, amended: the rule table is the bare path, gated by the legacy specifiers, plus
  exactly five nested paths (the five rows of the raw replacement list); every rule maps
  to the one target package \<open>@scaffold-ui/components\<close> and carries the one rename
  \<open>InputBase\<close> to \<open>BaseInput\<close>, the old name kept as alias.
\<close>

theorem C6_rule_table:
  "(determineTransform p specs \<noteq> None \<longleftrightarrow>
      p = ''~~/components/scaffold-eth'' \<and> (\<exists>s \<in> set specs. s \<in> LEGACY_COMPONENT_SPECIFIERS)
      \<or> p \<in> {''~~/components/scaffold-eth/Input'',
               ''~~/components/scaffold-eth/Input/AddressInput'',
               ''~~/components/scaffold-eth/Input/EtherInput'',
               ''~~/components/scaffold-eth/Address/Address'',
               ''~~/components/scaffold-eth/Address''})
   \<and> (\<forall>t. determineTransform p specs = Some t \<longrightarrow>
          newPath t = ''@scaffold-ui/components''
          \<and> renameSpecifiers t = Some [(''InputBase'', \<lparr>newName = ''BaseInput'', keepAlias = True\<rparr>)])
   \<and> map fst RAW_PATH_REPLACEMENTS =
        [''~~/components/scaffold-eth/Input/AddressInput'',
         ''~~/components/scaffold-eth/Input/EtherInput'',
         ''~~/components/scaffold-eth/Input'',
         ''~~/components/scaffold-eth/Address/Address'',
         ''~~/components/scaffold-eth/Address'']
   \<and> map snd RAW_PATH_REPLACEMENTS = replicate 5 ''@scaffold-ui/components''"
proof -
  have a: "newPath migrated = ''@scaffold-ui/components''"
    by (simp add: migrated_def COMPONENT_TARGET_def)
  have b: "renameSpecifiers migrated
      = Some [(''InputBase'', \<lparr>newName = ''BaseInput'', keepAlias = True\<rparr>)]"
    by (simp add: migrated_def COMPONENT_SPECIFIER_RENAMES_def)
  have c: "map fst RAW_PATH_REPLACEMENTS =
        [''~~/components/scaffold-eth/Input/AddressInput'',
         ''~~/components/scaffold-eth/Input/EtherInput'',
         ''~~/components/scaffold-eth/Input'',
         ''~~/components/scaffold-eth/Address/Address'',
         ''~~/components/scaffold-eth/Address'']"
    by (simp add: RAW_PATH_REPLACEMENTS_def)
  have d: "map snd RAW_PATH_REPLACEMENTS = replicate 5 ''@scaffold-ui/components''"
    by (simp add: RAW_PATH_REPLACEMENTS_def COMPONENT_TARGET_def numeral_eq_Suc)
  show ?thesis
    unfolding determineTransform_cases c using a b d by auto
qed

text \<open>The table at the bare path with one legacy specifier.\<close>

theorem C6_rule_table_witness:
  "determineTransform ''~~/components/scaffold-eth'' [''Balance''] = Some migrated
   \<and> newPath migrated = ''@scaffold-ui/components''
   \<and> renameSpecifiers migrated = Some [(''InputBase'', \<lparr>newName = ''BaseInput'', keepAlias = True\<rparr>)]"
proof -
  have "determineTransform ''~~/components/scaffold-eth'' [''Balance''] = Some migrated"
    by (simp add: determineTransform_def startsWith_def LEGACY_COMPONENT_SPECIFIERS_def)
  then show ?thesis
    using C6_rule_table [of "''~~/components/scaffold-eth''" "[''Balance'']"] by simp
qed

subsection \<open>Files without legacy references\<close>

text \<open>
  Claim C7: the transform is a total function: each loop of the model is a recursion with
  a termination proof and no step of the source raises. On a text in which the legacy
  prefix \<open>~~/components/scaffold-eth\<close> does not occur, it returns the text as it is, with
  an empty summary.
\<close>

theorem C7_passthrough:
  assumes "\<not> includes_str x ''~~/components/scaffold-eth''"
  shows "transformContent x = \<lparr>updatedContent = x, summary = []\<rparr>"
proof -
  define s0 where "s0 = \<lparr>updatedContent = x, summary = []\<rparr>"
  from assms have nb: "\<not> sublist ''~~/components/scaffold-eth'' x"
    by (simp add: includes_str_iff)
  have i: "import_pass s0 = s0"
    unfolding import_pass_def
  proof (rule foldl_unchanged)
    fix st m
    assume "m \<in> set (matchAll ''import'' (updatedContent s0))"
    then have "\<not> prefix ''~~/components/scaffold-eth'' (snd m)"
      using nb no_bare_no_match_prefix by (simp add: s0_def)
    then show "import_step st m = st" by (rule import_step_no_prefix)
  qed
  have e: "export_pass s0 = s0"
    unfolding export_pass_def
  proof (rule foldl_unchanged)
    fix st m
    assume "m \<in> set (matchAll ''export'' (updatedContent s0))"
    then have "\<not> prefix ''~~/components/scaffold-eth'' (snd m)"
      using nb no_bare_no_match_prefix by (simp add: s0_def)
    then show "export_step st m = st" by (rule export_step_no_prefix)
  qed
  have r: "foldl raw_step st tbl = st"
    if "set tbl \<subseteq> set RAW_PATH_REPLACEMENTS" and "updatedContent st = x" for st tbl
    using that
  proof (induction tbl arbitrary: st)
    case Nil
    show ?case by simp
  next
    case (Cons m tbl)
    from Cons.prems have "prefix ''~~/components/scaffold-eth'' (fst m)"
      using raw_legacy_prefix by simp
    then have "sublist ''~~/components/scaffold-eth'' (fst m)" by (rule prefix_imp_sublist)
    with nb have "\<not> sublist (fst m) x"
      using sublist_order.order_trans by blast
    with Cons.prems have "raw_step st m = st" by (simp add: raw_step_absent)
    with Cons show ?case by simp
  qed
  have "raw_pass s0 = s0"
    unfolding raw_pass_def by (rule r) (simp_all add: s0_def)
  with i e show ?thesis
    unfolding transformContent_def s0_def by simp
qed

text \<open>A text that mentions another module only.\<close>

theorem C7_passthrough_witness:
  "\<not> includes_str (''import { useState } from '' @ quoted ''react'' @ '';'')
        ''~~/components/scaffold-eth''
   \<and> transformContent (''import { useState } from '' @ quoted ''react'' @ '';'')
     = \<lparr>updatedContent = ''import { useState } from '' @ quoted ''react'' @ '';'',
        summary = []\<rparr>"
proof -
  have h: "\<not> includes_str (''import { useState } from '' @ quoted ''react'' @ '';'')
        ''~~/components/scaffold-eth''"
    by code_simp
  from h C7_passthrough[OF h] show ?thesis by simp
qed

subsection \<open>The raw fallback pass\<close>

text \<open>
  Claim C8: the raw pass is the plain replacement of the rows of the list, one after the
  other, each met from left to right. After the transform no legacy string of the list
  occurs in the text any more. In a text written as a tilde-free beginning and a list of
  pieces, each a listed legacy string followed by tilde-free text that does not extend
  it to a longer listed string, every listed string is replaced by the target package
  and everything else is kept: so is \<open>~~/components/scaffold-eth/Input/AddressInput\<close>
  as a whole, which a row for \<open>~~/components/scaffold-eth/Input\<close> taken first would turn into
  \<open>@scaffold-ui/components/AddressInput\<close>. In the list no string is a prefix of a later
  one. A sentence of a markdown file is rewritten.
\<close>

theorem C8_raw_pass_replaces_all:
  "(\<forall>r \<in> set RAW_PATH_REPLACEMENTS.
       \<not> includes_str (updatedContent (transformContent x)) (fst r))
   \<and> updatedContent (raw_pass st)
     = foldl (\<lambda>t r. replace_every (fst r) (snd r) t) (updatedContent st) RAW_PATH_REPLACEMENTS
   \<and> (CHR ''~'' \<notin> set w
        \<and> (\<forall>p \<in> set items. fst p \<in> set (map fst RAW_PATH_REPLACEMENTS)
              \<and> CHR ''~'' \<notin> set (snd p)
              \<and> (\<forall>l \<in> set (map fst RAW_PATH_REPLACEMENTS).
                    prefix l (fst p @ snd p) \<longrightarrow> prefix l (fst p)))
        \<longrightarrow> updatedContent
              (raw_pass \<lparr>updatedContent = w @ concat (map (\<lambda>p. fst p @ snd p) items),
                         summary = s\<rparr>)
            = w @ concat (map (\<lambda>p. ''@scaffold-ui/components'' @ snd p) items))
   \<and> sorted_wrt (\<lambda>r r'. \<not> prefix (fst r) (fst r')) RAW_PATH_REPLACEMENTS
   \<and> transformContent ''See ~~/components/scaffold-eth/Input/AddressInput for details.''
     = \<lparr>updatedContent = ''See @scaffold-ui/components for details.'',
        summary = [Text_line ''~~/components/scaffold-eth/Input/AddressInput''
                     ''@scaffold-ui/components'']\<rparr>"
proof -
  have a: "\<forall>r \<in> set RAW_PATH_REPLACEMENTS.
       \<not> includes_str (updatedContent (transformContent x)) (fst r)"
    unfolding transformContent_def raw_pass_def includes_str_iff
    using raw_fold_removes[OF raw_table_replaceable] by blast
  have "\<forall>r \<in> set RAW_PATH_REPLACEMENTS. fst r \<noteq> []"
    by (simp add: RAW_PATH_REPLACEMENTS_def)
  then have b: "updatedContent (raw_pass st)
     = foldl (\<lambda>t r. replace_every (fst r) (snd r) t) (updatedContent st) RAW_PATH_REPLACEMENTS"
    unfolding raw_pass_def by (rule raw_fold_replace_every)
  have c: "CHR ''~'' \<notin> set w
        \<and> (\<forall>p \<in> set items. fst p \<in> set (map fst RAW_PATH_REPLACEMENTS)
              \<and> CHR ''~'' \<notin> set (snd p)
              \<and> (\<forall>l \<in> set (map fst RAW_PATH_REPLACEMENTS).
                    prefix l (fst p @ snd p) \<longrightarrow> prefix l (fst p)))
        \<longrightarrow> updatedContent
              (raw_pass \<lparr>updatedContent = w @ concat (map (\<lambda>p. fst p @ snd p) items),
                         summary = s\<rparr>)
            = w @ concat (map (\<lambda>p. ''@scaffold-ui/components'' @ snd p) items)"
    using raw_pass_items by blast
  have d: "sorted_wrt (\<lambda>r r'. \<not> prefix (fst r) (fst r')) RAW_PATH_REPLACEMENTS"
    by (simp add: RAW_PATH_REPLACEMENTS_def)
  have e: "transformContent ''See ~~/components/scaffold-eth/Input/AddressInput for details.''
     = \<lparr>updatedContent = ''See @scaffold-ui/components for details.'',
        summary = [Text_line ''~~/components/scaffold-eth/Input/AddressInput''
                     ''@scaffold-ui/components'']\<rparr>"
    by code_simp
  from a b c d e show ?thesis by blast
qed

text \<open>
  The text \<open>See ~~/components/scaffold-eth/Input/AddressInput and
  ~~/components/scaffold-eth/Input/Other and ~~/components/scaffold-eth/Address.\<close> in three
  pieces.
\<close>

theorem C8_raw_pass_replaces_all_witness:
  "updatedContent
     (raw_pass
        \<lparr>updatedContent =
           ''See '' @ concat (map (\<lambda>p. fst p @ snd p)
             [(''~~/components/scaffold-eth/Input/AddressInput'', '' and ''),
              (''~~/components/scaffold-eth/Input'', ''/Other and ''),
              (''~~/components/scaffold-eth/Address'', ''.'')]),
         summary = []\<rparr>)
     = ''See @scaffold-ui/components and @scaffold-ui/components/Other and @scaffold-ui/components.''"
proof -
  have h: "CHR ''~'' \<notin> set ''See ''
        \<and> (\<forall>p \<in> set [(''~~/components/scaffold-eth/Input/AddressInput'', '' and ''),
                      (''~~/components/scaffold-eth/Input'', ''/Other and ''),
                      (''~~/components/scaffold-eth/Address'', ''.'')].
              fst p \<in> set (map fst RAW_PATH_REPLACEMENTS)
              \<and> CHR ''~'' \<notin> set (snd p)
              \<and> (\<forall>l \<in> set (map fst RAW_PATH_REPLACEMENTS).
                    prefix l (fst p @ snd p) \<longrightarrow> prefix l (fst p)))"
    by (simp add: RAW_PATH_REPLACEMENTS_def)
  from C8_raw_pass_replaces_all
         [where w = "''See ''" and s = "[]" and x = "[]"
            and st = "\<lparr>updatedContent = [], summary = []\<rparr>"
            and items = "[(''~~/components/scaffold-eth/Input/AddressInput'', '' and ''),
                          (''~~/components/scaffold-eth/Input'', ''/Other and ''),
                          (''~~/components/scaffold-eth/Address'', ''.'')]"]
       h
  have "updatedContent
     (raw_pass
        \<lparr>updatedContent =
           ''See '' @ concat (map (\<lambda>p. fst p @ snd p)
             [(''~~/components/scaffold-eth/Input/AddressInput'', '' and ''),
              (''~~/components/scaffold-eth/Input'', ''/Other and ''),
              (''~~/components/scaffold-eth/Address'', ''.'')]),
         summary = []\<rparr>)
     = ''See '' @ concat (map (\<lambda>p. ''@scaffold-ui/components'' @ snd p)
             [(''~~/components/scaffold-eth/Input/AddressInput'', '' and ''),
              (''~~/components/scaffold-eth/Input'', ''/Other and ''),
              (''~~/components/scaffold-eth/Address'', ''.'')])"
    by blast
  then show ?thesis by simp
qed

subsection \<open>The order of the change summary\<close>

text \<open>
  Claim C9, as stated, orders the lines of the raw pass by first match in the text and
  gives one line to each match. In this text the legacy string \<open>.../Address\<close> occurs at
  positions 0 and 78 and \<open>.../Input\<close> at position 39; the summary has two lines, the one
  for \<open>.../Input\<close> first.
\<close>

theorem C9_raw_lines_in_table_order:
  "find_index
      ''~~/components/scaffold-eth/Address and ~~/components/scaffold-eth/Input and ~~/components/scaffold-eth/Address''
      ''~~/components/scaffold-eth/Address'' = Some 0
   \<and> find_index
      ''~~/components/scaffold-eth/Address and ~~/components/scaffold-eth/Input and ~~/components/scaffold-eth/Address''
      ''~~/components/scaffold-eth/Input'' = Some 39
   \<and> transformContent
      ''~~/components/scaffold-eth/Address and ~~/components/scaffold-eth/Input and ~~/components/scaffold-eth/Address''
     = \<lparr>updatedContent =
          ''@scaffold-ui/components and @scaffold-ui/components and @scaffold-ui/components'',
        summary =
          [Text_line ''~~/components/scaffold-eth/Input'' ''@scaffold-ui/components'',
           Text_line ''~~/components/scaffold-eth/Address'' ''@scaffold-ui/components'']\<rparr>"
proof -
  have a: "find_index
      ''~~/components/scaffold-eth/Address and ~~/components/scaffold-eth/Input and ~~/components/scaffold-eth/Address''
      ''~~/components/scaffold-eth/Address'' = Some 0"
    by code_simp
  have b: "find_index
      ''~~/components/scaffold-eth/Address and ~~/components/scaffold-eth/Input and ~~/components/scaffold-eth/Address''
      ''~~/components/scaffold-eth/Input'' = Some 39"
    by code_simp
  have c: "transformContent
      ''~~/components/scaffold-eth/Address and ~~/components/scaffold-eth/Input and ~~/components/scaffold-eth/Address''
     = \<lparr>updatedContent =
          ''@scaffold-ui/components and @scaffold-ui/components and @scaffold-ui/components'',
        summary =
          [Text_line ''~~/components/scaffold-eth/Input'' ''@scaffold-ui/components'',
           Text_line ''~~/components/scaffold-eth/Address'' ''@scaffold-ui/components'']\<rparr>"
    by code_simp
  from a b c show ?thesis by blast
qed

text \<open>
  Claim C9, amended: the summary is the lines of the import statements that were
  rewritten, one for each such match in the order of the matches, then the lines of the
  export-from statements that were rewritten, in the same way, then the lines of the raw
  pass: going through the five rows of the replacement list in their order, the row
  number \<open>k\<close> gives one line exactly when the text, as the rows before it have left it,
  contains the legacy string of the row.
\<close>

theorem C9_summary_order:
  "summary (transformContent x) =
     replicate
       (length (filter (\<lambda>m. appliedTransform (analyzeImportStatement (fst m) (snd m)) \<noteq> None
                         \<and> updated (analyzeImportStatement (fst m) (snd m)) \<noteq> fst m)
                  (matchAll ''import'' x)))
       (Import_line ''components import migrated to @scaffold-ui/components'')
     @ replicate
       (length (filter (\<lambda>m. determineTransform (snd m) [] \<noteq> None
                         \<and> replace_first (fst m) (snd m) ''@scaffold-ui/components'' \<noteq> fst m)
                  (matchAll ''export''
                     (updatedContent (import_pass \<lparr>updatedContent = x, summary = []\<rparr>)))))
       (Export_line ''components import migrated to @scaffold-ui/components'')
     @ concat
         (map (\<lambda>k. if includes_str
                        (updatedContent
                           (foldl raw_step
                              (export_pass (import_pass \<lparr>updatedContent = x, summary = []\<rparr>))
                              (take k RAW_PATH_REPLACEMENTS)))
                        (fst (RAW_PATH_REPLACEMENTS ! k))
                   then [Text_line (fst (RAW_PATH_REPLACEMENTS ! k)) ''@scaffold-ui/components'']
                   else [])
            [0..<length RAW_PATH_REPLACEMENTS])
   \<and> length RAW_PATH_REPLACEMENTS = 5"
proof -
  define s0 where "s0 = \<lparr>updatedContent = x, summary = []\<rparr>"
  define s1 where "s1 = import_pass s0"
  define s2 where "s2 = export_pass s1"
  have d: "description migrated = ''components import migrated to @scaffold-ui/components''"
    by (simp add: migrated_def COMPONENT_TARGET_def)
  have n: "newPath migrated = ''@scaffold-ui/components''"
    by (simp add: migrated_def COMPONENT_TARGET_def)
  have i: "summary s1 =
      replicate
         (length (filter (\<lambda>m. appliedTransform (analyzeImportStatement (fst m) (snd m)) \<noteq> None
                           \<and> updated (analyzeImportStatement (fst m) (snd m)) \<noteq> fst m)
                    (matchAll ''import'' x)))
         (Import_line ''components import migrated to @scaffold-ui/components'')"
    unfolding s1_def import_pass_def import_fold_summary d by (simp add: s0_def)
  have e: "summary s2 = summary s1 @
      replicate
         (length (filter (\<lambda>m. determineTransform (snd m) [] \<noteq> None
                           \<and> replace_first (fst m) (snd m) ''@scaffold-ui/components'' \<noteq> fst m)
                    (matchAll ''export'' (updatedContent s1))))
         (Export_line ''components import migrated to @scaffold-ui/components'')"
    unfolding s2_def export_pass_def export_fold_summary d n by simp
  have t: "snd (RAW_PATH_REPLACEMENTS ! k) = ''@scaffold-ui/components''"
    if "k < length RAW_PATH_REPLACEMENTS" for k
  proof -
    from that have "RAW_PATH_REPLACEMENTS ! k \<in> set RAW_PATH_REPLACEMENTS" by (rule nth_mem)
    then show ?thesis
      by (auto simp: RAW_PATH_REPLACEMENTS_def COMPONENT_TARGET_def)
  qed
  have r: "summary (raw_pass s2) = summary s2 @
      concat
         (map (\<lambda>k. if includes_str
                        (updatedContent (foldl raw_step s2 (take k RAW_PATH_REPLACEMENTS)))
                        (fst (RAW_PATH_REPLACEMENTS ! k))
                   then [Text_line (fst (RAW_PATH_REPLACEMENTS ! k)) ''@scaffold-ui/components'']
                   else [])
            [0..<length RAW_PATH_REPLACEMENTS])"
    unfolding raw_pass_def raw_fold_lines[of s2 RAW_PATH_REPLACEMENTS]
    by (rule arg_cong[where f = "\<lambda>z. summary s2 @ concat z"], rule map_cong) (simp_all add: t)
  have l: "length RAW_PATH_REPLACEMENTS = 5"
    by (simp add: RAW_PATH_REPLACEMENTS_def)
  have "summary (transformContent x) = summary (raw_pass s2)"
    unfolding transformContent_def s2_def s1_def s0_def by simp
  with r e i l show ?thesis
    unfolding s2_def s1_def s0_def by simp
qed

subsection \<open>Paths that extend a listed legacy string\<close>

text \<open>
  Claim C10: the paths \<open>~~/components/scaffold-eth/Input/Other\<close> and
  \<open>~~/components/scaffold-eth/Inputs\<close> are covered by no rule of the resolver, yet the raw
  pass replaces their prefix \<open>~~/components/scaffold-eth/Input\<close> by the target package.
\<close>

theorem C10_prefix_of_longer_path_replaced:
  "determineTransform ''~~/components/scaffold-eth/Input/Other'' specs = None
   \<and> determineTransform ''~~/components/scaffold-eth/Inputs'' specs = None
   \<and> transformContent
        (''import { Other } from '' @ quoted ''~~/components/scaffold-eth/Input/Other'' @ '';'')
     = \<lparr>updatedContent =
          ''import { Other } from '' @ quoted ''@scaffold-ui/components/Other'' @ '';'',
        summary = [Text_line ''~~/components/scaffold-eth/Input'' ''@scaffold-ui/components'']\<rparr>
   \<and> transformContent
        (''import { Other } from '' @ quoted ''~~/components/scaffold-eth/Inputs'' @ '';'')
     = \<lparr>updatedContent =
          ''import { Other } from '' @ quoted ''@scaffold-ui/componentss'' @ '';'',
        summary = [Text_line ''~~/components/scaffold-eth/Input'' ''@scaffold-ui/components'']\<rparr>"
proof -
  have a: "determineTransform ''~~/components/scaffold-eth/Input/Other'' specs = None"
    by (simp add: determineTransform_cases RAW_PATH_REPLACEMENTS_def)
  have b: "determineTransform ''~~/components/scaffold-eth/Inputs'' specs = None"
    by (simp add: determineTransform_cases RAW_PATH_REPLACEMENTS_def)
  have c: "transformContent
        (''import { Other } from '' @ quoted ''~~/components/scaffold-eth/Input/Other'' @ '';'')
     = \<lparr>updatedContent =
          ''import { Other } from '' @ quoted ''@scaffold-ui/components/Other'' @ '';'',
        summary = [Text_line ''~~/components/scaffold-eth/Input'' ''@scaffold-ui/components'']\<rparr>"
    by code_simp
  have d: "transformContent
        (''import { Other } from '' @ quoted ''~~/components/scaffold-eth/Inputs'' @ '';'')
     = \<lparr>updatedContent =
          ''import { Other } from '' @ quoted ''@scaffold-ui/componentss'' @ '';'',
        summary = [Text_line ''~~/components/scaffold-eth/Input'' ''@scaffold-ui/components'']\<rparr>"
    by code_simp
  from a b c d show ?thesis by blast
qed

end
